theory Spec2Isabelle
  imports Complex_Main "HOL-Library.AList" "HOL-Library.Monad_Syntax"
begin

section \<open>The order book of \<^verbatim>\<open>src/datafeed/server3.py\<close>\<close>

text \<open>
  Prices are Python floats; they are modelled as \<^typ>\<open>real\<close>, so comparisons are the
  comparisons of the (finite) float values and products are taken exactly. Sizes and
  ages are Python ints (\<^typ>\<open>int\<close>). A resting entry is the tuple
  \<^verbatim>\<open>(price, size, age)\<close>, a book is a list of entries, top of book at index 0.
\<close>

type_synonym entry = "real \<times> int \<times> int"
type_synonym book = "entry list"

text \<open>The exceptions the modelled code can raise.\<close>

datatype error = IndexError | TypeError | StopIteration | ZeroDivisionError

subsection \<open>\<^verbatim>\<open>add_book\<close>\<close>

text \<open>
  The \<^verbatim>\<open>for\<close> loop of \<^verbatim>\<open>add_book\<close>: every entry with \<^verbatim>\<open>age > 0\<close> is yielded with
  its age decremented, the others are skipped.
\<close>

fun age_book :: "book \<Rightarrow> book" where
  "age_book [] = []"
| "age_book ((p, s, age) # rest) =
     (if age > 0 then (p, s, age - 1) # age_book rest else age_book rest)"

text \<open>
  \<^verbatim>\<open>add_book(book, order, size, _age=10)\<close>: the new entry first, then the aged book. The
  default \<^verbatim>\<open>_age=10\<close> is passed explicitly by the callers below.
\<close>

definition add_book :: "book \<Rightarrow> real \<Rightarrow> int \<Rightarrow> int \<Rightarrow> book" where
  "add_book book order sz age = (order, sz, age) # age_book book"

subsection \<open>\<^verbatim>\<open>clear_order\<close> and the table \<^verbatim>\<open>ops\<close>\<close>

definition operator_ge :: "real \<Rightarrow> real \<Rightarrow> bool" where
  "operator_ge a b = (a \<ge> b)"

definition operator_le :: "real \<Rightarrow> real \<Rightarrow> bool" where
  "operator_le a b = (a \<le> b)"

text \<open>The dictionary \<^verbatim>\<open>ops = {'buy': operator.le, 'sell': operator.ge}\<close>.\<close>

definition ops :: "string \<rightharpoonup> (real \<Rightarrow> real \<Rightarrow> bool)" where
  "ops = [''buy'' \<mapsto> operator_le, ''sell'' \<mapsto> operator_ge]"

text \<open>
  \<^verbatim>\<open>clear_order(order, size, book, op, _notional)\<close>. \<^verbatim>\<open>book[0]\<close> raises \<^verbatim>\<open>IndexError\<close> on
  an empty book. Falling off the end of the function returns \<^verbatim>\<open>None\<close>: this happens when
  \<^verbatim>\<open>op(order, top_order)\<close> is false, and when \<^verbatim>\<open>sdiff <= 0\<close> with an empty tail.
  The result is \<open>Inl e\<close> for a raised exception, \<open>Inr None\<close> for \<^verbatim>\<open>None\<close> and
  \<open>Inr (Some (notional, new_book))\<close> for the returned tuple.
\<close>

fun clear_order ::
  "real \<Rightarrow> int \<Rightarrow> book \<Rightarrow> (real \<Rightarrow> real \<Rightarrow> bool) \<Rightarrow> real \<Rightarrow> error + (real \<times> book) option"
where
  "clear_order order sz [] op notional = Inl IndexError"
| "clear_order order sz ((top_order, top_size, age) # tail) op notional =
     (if op order top_order then
        (let notional' = notional + of_int (min sz top_size) * top_order;
             sdiff = top_size - sz
         in if sdiff > 0 then Inr (Some (notional', add_book tail top_order sdiff age))
            else if length tail > 0 then clear_order order (- sdiff) tail op notional'
            else Inr None)
      else Inr None)"

subsection \<open>\<^verbatim>\<open>clear_book\<close>\<close>

text \<open>
  The \<^verbatim>\<open>while buy and sell\<close> loop of \<^verbatim>\<open>clear_book\<close>, on two lists. It stops when
  either list is empty, and at the \<^verbatim>\<open>break\<close> taken when \<^verbatim>\<open>clear_order\<close> returned
  \<^verbatim>\<open>None\<close>. A returned tuple is always truthy, so \<^verbatim>\<open>if new_book\<close> tests for \<^verbatim>\<open>None\<close>
  only. \<^verbatim>\<open>clear_order\<close> is called with its defaults \<^verbatim>\<open>op=operator.ge\<close> and
  \<^verbatim>\<open>_notional=0\<close>.
\<close>

fun clear_book_loop :: "book \<Rightarrow> book \<Rightarrow> error + (book \<times> book)" where
  "clear_book_loop [] sell = Inr ([], sell)"
| "clear_book_loop (b # buy) [] = Inr (b # buy, [])"
| "clear_book_loop ((order, sz, age) # buy) (s # sell) =
     (case clear_order order sz (s # sell) operator_ge 0 of
        Inl e \<Rightarrow> Inl e
      | Inr None \<Rightarrow> Inr ((order, sz, age) # buy, s # sell)
      | Inr (Some new_book) \<Rightarrow> clear_book_loop buy (snd new_book))"

text \<open>
  \<^verbatim>\<open>clear_book(buy=None, sell=None)\<close>: an argument that is \<^verbatim>\<open>None\<close> is falsy, the loop
  body never runs and both arguments are returned as they are.
\<close>

definition clear_book :: "book option \<Rightarrow> book option \<Rightarrow> error + (book option \<times> book option)" where
  "clear_book buy sell =
     (case (buy, sell) of
        (Some b, Some s) \<Rightarrow>
          (case clear_book_loop b s of
             Inl e \<Rightarrow> Inl e
           | Inr (b', s') \<Rightarrow> Inr (Some b', Some s'))
      | _ \<Rightarrow> Inr (buy, sell))"

text \<open>The pair is uncrossed: a side is absent or empty, or best bid < best ask.\<close>

fun uncrossed :: "book option \<Rightarrow> book option \<Rightarrow> bool" where
  "uncrossed (Some ((bid, bs, ba) # buy)) (Some ((ask, ss, sa) # sell)) = (bid < ask)"
| "uncrossed buy sell = True"

subsection \<open>\<^verbatim>\<open>order_book\<close>\<close>

text \<open>
  A recorded row is \<^verbatim>\<open>(t, stock, side, order, size)\<close> as \<^verbatim>\<open>read_csv\<close> yields it; the
  timestamp is a \<^verbatim>\<open>datetime\<close>, modelled as its count of microseconds. The dictionary
  \<^verbatim>\<open>book\<close> maps a side name to a book; it is an association list, \<^verbatim>\<open>book.get(side, [])\<close>
  is \<open>book_get\<close> and \<^verbatim>\<open>book[side] = v\<close> is \<^const>\<open>AList.update\<close>. A snapshot is the
  yielded tuple \<^verbatim>\<open>(t, bids, asks)\<close>, where a side can be \<^verbatim>\<open>None\<close>.
\<close>

type_synonym row = "int \<times> string \<times> string \<times> real \<times> int"
type_synonym books = "(string \<times> book) list"
type_synonym snapshot = "int \<times> book option \<times> book option"

definition book_get :: "books \<Rightarrow> string \<Rightarrow> book" where
  "book_get book side = (case map_of book side of None \<Rightarrow> [] | Some b \<Rightarrow> b)"

text \<open>
  \<^verbatim>\<open>sorted(new, reverse=side == 'buy', key=lambda x: x[0])\<close>: a stable sort on the price,
  ascending, or descending (still stable) for the buy side.
\<close>

definition sorted_side :: "string \<Rightarrow> book \<Rightarrow> book" where
  "sorted_side side new =
     (if side = ''buy'' then sort_key (\<lambda>x. - fst x) new else sort_key fst new)"

text \<open>
  \<^verbatim>\<open>clear_book(**book)\<close>: a key other than \<^verbatim>\<open>buy\<close> and \<^verbatim>\<open>sell\<close> is an unexpected
  keyword argument, a \<^verbatim>\<open>TypeError\<close>; a missing key leaves the default \<^verbatim>\<open>None\<close>.
\<close>

definition clear_book_kwargs :: "books \<Rightarrow> error + (book option \<times> book option)" where
  "clear_book_kwargs book =
     (if list_all (\<lambda>k. k = ''buy'' \<or> k = ''sell'') (map fst book)
      then clear_book (map_of book ''buy'') (map_of book ''sell'')
      else Inl TypeError)"

text \<open>
  The assignment to \<^verbatim>\<open>book[side]\<close> in the loop body of \<^verbatim>\<open>order_book\<close>: the only place
  where the dictionary is changed.
\<close>

definition insert_row :: "string \<Rightarrow> books \<Rightarrow> row \<Rightarrow> books" where
  "insert_row stock_name book r =
     (case r of (t, stock, side, order, sz) \<Rightarrow>
        if stock_name = stock
        then AList.update side (sorted_side side (add_book (book_get book side) order sz 10)) book
        else book)"

text \<open>
  One turn of the loop body of \<^verbatim>\<open>order_book\<close>: the value yielded (or the exception
  raised by \<^verbatim>\<open>clear_book(**book)\<close>) and the dictionary afterwards. The result of
  \<^verbatim>\<open>clear_book\<close> is bound to \<^verbatim>\<open>bids, asks\<close> and yielded; it is not stored in \<^verbatim>\<open>book\<close>.
\<close>

definition order_book_step :: "string \<Rightarrow> books \<Rightarrow> row \<Rightarrow> (error + snapshot) \<times> books" where
  "order_book_step stock_name book r =
     (let book' = insert_row stock_name book r
      in case clear_book_kwargs book' of
           Inl e \<Rightarrow> (Inl e, book')
         | Inr (bids, asks) \<Rightarrow> (Inr (fst r, bids, asks), book'))"

text \<open>
  The generator \<^verbatim>\<open>order_book(orders, book, stock_name)\<close> run over a finite list of rows:
  the snapshots it yields, in order, until the rows end or an exception ends it.
\<close>

fun order_book :: "row list \<Rightarrow> books \<Rightarrow> string \<Rightarrow> snapshot list" where
  "order_book [] book stock_name = []"
| "order_book (r # orders) book stock_name =
     (case order_book_step stock_name book r of
        (Inl e, book') \<Rightarrow> []
      | (Inr snap, book') \<Rightarrow> snap # order_book orders book' stock_name)"

text \<open>
  The pipeline as the specification words it: the cleared books returned by
  \<^verbatim>\<open>clear_book\<close> are the books the next event is inserted into.
\<close>

definition store_cleared :: "books \<Rightarrow> book option \<times> book option \<Rightarrow> books" where
  "store_cleared book cleared =
     (let b1 = (case fst cleared of None \<Rightarrow> book | Some b \<Rightarrow> AList.update ''buy'' b book)
      in case snd cleared of None \<Rightarrow> b1 | Some s \<Rightarrow> AList.update ''sell'' s b1)"

fun order_book_spec :: "row list \<Rightarrow> books \<Rightarrow> string \<Rightarrow> snapshot list" where
  "order_book_spec [] book stock_name = []"
| "order_book_spec (r # orders) book stock_name =
     (case order_book_step stock_name book r of
        (Inl e, book') \<Rightarrow> []
      | (Inr snap, book') \<Rightarrow>
          snap # order_book_spec orders (store_cleared book' (snd snap)) stock_name)"

section \<open>The application: pacing and rebuild\<close>

text \<open>
  A generator object made by \<^verbatim>\<open>order_book(read_csv(), book, stock_name)\<close> is the list
  of rows it has not read yet, together with the dictionary it shares with the
  application. \<^verbatim>\<open>next\<close> on it raises \<^verbatim>\<open>StopIteration\<close> when the rows have ended; a
  generator that has raised is finished, and every later \<^verbatim>\<open>next\<close> raises
  \<^verbatim>\<open>StopIteration\<close>, as on the empty list of rows. The rows are the content of the
  recorded file as \<^verbatim>\<open>read_csv\<close> parses it; reading and parsing the file are outside
  the model.
\<close>

fun order_book_next ::
  "string \<Rightarrow> row list \<Rightarrow> books \<Rightarrow> (error + snapshot) \<times> row list \<times> books"
where
  "order_book_next stock_name [] book = (Inl StopIteration, [], book)"
| "order_book_next stock_name (r # rest) book =
     (case order_book_step stock_name book r of
        (Inl e, book') \<Rightarrow> (Inl e, [], book')
      | (Inr snap, book') \<Rightarrow> (Inr snap, rest, book'))"

text \<open>
  The fields of \<^verbatim>\<open>App\<close>. \<^verbatim>\<open>_sim_start\<close> is \<^verbatim>\<open>None\<close> until the first snapshot has been
  read. \<^verbatim>\<open>_data_1\<close> and \<^verbatim>\<open>_data_2\<close> are assigned by \<^verbatim>\<open>initialize_data_feeds\<close> before
  anything reads them.
\<close>

record app =
  book_1 :: books
  book_2 :: books
  data_1 :: "row list"
  data_2 :: "row list"
  rt_start :: int
  sim_start :: "int option"

definition REALTIME :: bool where
  "REALTIME = True"

definition next_data_1 :: "app \<Rightarrow> (error + snapshot) \<times> app" where
  "next_data_1 a =
     (case order_book_next ''ABC'' (data_1 a) (book_1 a) of
        (res, rows, book) \<Rightarrow> (res, a\<lparr>data_1 := rows, book_1 := book\<rparr>))"

definition next_data_2 :: "app \<Rightarrow> (error + snapshot) \<times> app" where
  "next_data_2 a =
     (case order_book_next ''DEF'' (data_2 a) (book_2 a) of
        (res, rows, book) \<Rightarrow> (res, a\<lparr>data_2 := rows, book_2 := book\<rparr>))"

text \<open>
  \<^verbatim>\<open>read_10_first_lines\<close>: the loop \<^verbatim>\<open>for _ in range(10)\<close>, with the number of turns
  left; the exception that ended it, if any, and the application afterwards.
\<close>

fun read_lines :: "nat \<Rightarrow> app \<Rightarrow> error option \<times> app" where
  "read_lines 0 a = (None, a)"
| "read_lines (Suc n) a =
     (case next_data_1 a of
        (Inl e, a1) \<Rightarrow> (Some e, a1)
      | (Inr snap1, a1) \<Rightarrow>
          (case next_data_2 a1 of
             (Inl e, a2) \<Rightarrow> (Some e, a2)
           | (Inr snap2, a2) \<Rightarrow> read_lines n a2))"

definition read_10_first_lines :: "app \<Rightarrow> error option \<times> app" where
  "read_10_first_lines a = read_lines 10 a"

text \<open>
  \<^verbatim>\<open>initialize_data_feeds\<close>: both generators are made anew over the recorded rows
  \<open>csv\<close>, on the dictionaries the application already has; the first snapshot of
  \<^verbatim>\<open>_data_1\<close> is read for \<^verbatim>\<open>_sim_start\<close>, then \<^verbatim>\<open>read_10_first_lines\<close> runs. Every
  exception is caught by \<^verbatim>\<open>except Exception\<close> and printed, which leaves the application
  as it was when the exception was raised.
\<close>

definition initialize_data_feeds :: "row list \<Rightarrow> app \<Rightarrow> app" where
  "initialize_data_feeds csv a =
     (case next_data_1 (a\<lparr>data_1 := csv, data_2 := csv\<rparr>) of
        (Inl e, a1) \<Rightarrow> a1
      | (Inr snap, a1) \<Rightarrow> snd (read_10_first_lines (a1\<lparr>sim_start := Some (fst snap)\<rparr>)))"

text \<open>\<^verbatim>\<open>App.__init__\<close>, with the reading \<open>now\<close> of \<^verbatim>\<open>datetime.now()\<close>.\<close>

definition app_init :: "row list \<Rightarrow> int \<Rightarrow> app" where
  "app_init csv now =
     initialize_data_feeds csv
       \<lparr>book_1 = [], book_2 = [], data_1 = [], data_2 = [], rt_start = now, sim_start = None\<rparr>"

text \<open>
  \<^verbatim>\<open>next(self._current_book_1)\<close>. The property makes a new generator at every access, so
  each call runs the body from its start: it reads snapshots from the data generator
  and yields the first one for which
  \<^verbatim>\<open>t > self._sim_start + (datetime.now() - self._rt_start)\<close>; a snapshot for which the
  test is false is passed over. \<open>clock\<close> gives the successive readings of
  \<^verbatim>\<open>datetime.now()\<close>, \<open>k\<close> counts the readings taken so far. With \<^verbatim>\<open>_sim_start\<close> still
  \<^verbatim>\<open>None\<close> the addition raises \<^verbatim>\<open>TypeError\<close>. Without \<^verbatim>\<open>REALTIME\<close> every snapshot is
  yielded.
\<close>

fun current_book_next ::
  "bool \<Rightarrow> int option \<Rightarrow> int \<Rightarrow> (nat \<Rightarrow> int) \<Rightarrow> nat \<Rightarrow> string \<Rightarrow> row list \<Rightarrow> books
     \<Rightarrow> (error + snapshot) \<times> nat \<times> row list \<times> books"
where
  "current_book_next realtime sim rt clock k stock_name [] book =
     (Inl StopIteration, k, [], book)"
| "current_book_next realtime sim rt clock k stock_name (r # rest) book =
     (case order_book_step stock_name book r of
        (Inl e, book') \<Rightarrow> (Inl e, k, [], book')
      | (Inr snap, book') \<Rightarrow>
          if realtime then
            (case sim of
               None \<Rightarrow> (Inl TypeError, Suc k, rest, book')
             | Some s \<Rightarrow>
                 if fst snap > s + (clock k - rt) then (Inr snap, Suc k, rest, book')
                 else current_book_next realtime sim rt clock (Suc k) stock_name rest book')
          else (Inr snap, k, rest, book'))"

definition current_book_1 :: "(nat \<Rightarrow> int) \<Rightarrow> nat \<Rightarrow> app \<Rightarrow> (error + snapshot) \<times> nat \<times> app" where
  "current_book_1 clock k a =
     (case current_book_next REALTIME (sim_start a) (rt_start a) clock k ''ABC''
             (data_1 a) (book_1 a) of
        (res, k', rows, book) \<Rightarrow> (res, k', a\<lparr>data_1 := rows, book_1 := book\<rparr>))"

definition current_book_2 :: "(nat \<Rightarrow> int) \<Rightarrow> nat \<Rightarrow> app \<Rightarrow> (error + snapshot) \<times> nat \<times> app" where
  "current_book_2 clock k a =
     (case current_book_next REALTIME (sim_start a) (rt_start a) clock k ''DEF''
             (data_2 a) (book_2 a) of
        (res, k', rows, book) \<Rightarrow> (res, k', a\<lparr>data_2 := rows, book_2 := book\<rparr>))"

text \<open>
  The two \<^verbatim>\<open>next\<close> calls that \<^verbatim>\<open>handle_query\<close> makes, first in its \<^verbatim>\<open>try\<close> block and
  again in its \<^verbatim>\<open>except StopIteration\<close> block.
\<close>

definition query_pull ::
  "(nat \<Rightarrow> int) \<Rightarrow> nat \<Rightarrow> app \<Rightarrow> (error + snapshot \<times> snapshot) \<times> nat \<times> app"
where
  "query_pull clock k a =
     (case current_book_1 clock k a of
        (Inl e, k1, a1) \<Rightarrow> (Inl e, k1, a1)
      | (Inr snap1, k1, a1) \<Rightarrow>
          (case current_book_2 clock k1 a1 of
             (Inl e, k2, a2) \<Rightarrow> (Inl e, k2, a2)
           | (Inr snap2, k2, a2) \<Rightarrow> (Inr (snap1, snap2), k2, a2)))"

text \<open>
  \<^verbatim>\<open>handle_query\<close>: a \<^verbatim>\<open>StopIteration\<close> from the first pair of calls is caught, the
  feeds are initialised again and the pair of calls is made once more, outside any
  \<^verbatim>\<open>try\<close>; any other exception, and any exception of the second pair, leaves the
  handler. The result is the response timestamp \<^verbatim>\<open>max(t1, t2)\<close> with the two snapshots
  the response is rendered from; the rendering to JSON is outside the model.
\<close>

definition handle_query ::
  "row list \<Rightarrow> (nat \<Rightarrow> int) \<Rightarrow> nat \<Rightarrow> app
     \<Rightarrow> (error + int \<times> snapshot \<times> snapshot) \<times> nat \<times> app"
where
  "handle_query csv clock k a =
     (case (case query_pull clock k a of
              (Inl StopIteration, k1, a1) \<Rightarrow> query_pull clock k1 (initialize_data_feeds csv a1)
            | other \<Rightarrow> other) of
        (Inl e, k2, a2) \<Rightarrow> (Inl e, k2, a2)
      | (Inr (snap1, snap2), k2, a2) \<Rightarrow>
          (Inr (max (fst snap1) (fst snap2), snap1, snap2), k2, a2))"

text \<open>A clock whose \<open>k\<close>-th reading is \<open>c + k\<close> microseconds.\<close>

definition ticking_clock :: "int \<Rightarrow> nat \<Rightarrow> int" where
  "ticking_clock c k = c + int k"

text \<open>
  A recorded file of thirteen rows, one every 1000 microseconds, alternating between the
  two stocks, used to run the application on.
\<close>

definition recorded_rows :: "row list" where
  "recorded_rows =
     [(0, ''ABC'', ''sell'', 100, 1), (1000, ''DEF'', ''sell'', 100, 1),
      (2000, ''ABC'', ''sell'', 101, 1), (3000, ''DEF'', ''sell'', 101, 1),
      (4000, ''ABC'', ''buy'', 99, 1), (5000, ''DEF'', ''buy'', 99, 1),
      (6000, ''ABC'', ''sell'', 102, 1), (7000, ''DEF'', ''sell'', 102, 1),
      (8000, ''ABC'', ''buy'', 98, 1), (9000, ''DEF'', ''buy'', 98, 1),
      (10000, ''ABC'', ''sell'', 103, 1), (11000, ''DEF'', ''sell'', 103, 1),
      (12000, ''ABC'', ''sell'', 104, 1)]"

text \<open>
  The application started on these rows at wall-clock time 0 and queried twice: the
  second query returns the last row to the first pipeline, which is then exhausted.
\<close>

definition replayed_app :: app where
  "replayed_app =
     snd (snd (handle_query recorded_rows (ticking_clock 0) 2
       (snd (snd (handle_query recorded_rows (ticking_clock 0) 0 (app_init recorded_rows 0))))))"

text \<open>
  The timestamps in a result of \<^verbatim>\<open>handle_query\<close>: of the response, of the snapshot of the
  first pipeline and of the snapshot of the second.
\<close>

definition response_times :: "error + int \<times> snapshot \<times> snapshot \<Rightarrow> error + int \<times> int \<times> int" where
  "response_times res =
     (case res of
        Inl e \<Rightarrow> Inl e
      | Inr (t, snap1, snap2) \<Rightarrow> Inr (t, fst snap1, fst snap2))"

section \<open>The test data generators\<close>

text \<open>
  The generators draw from \<^verbatim>\<open>random.normalvariate\<close> and \<^verbatim>\<open>random.random\<close>. The draws
  are injected: a generator is run on the list of the values the random source returns
  to it.
\<close>

subsection \<open>Double precision arithmetic\<close>

text \<open>
  The generators compute in Python floats, which are IEEE 754 doubles. A finite double
  is modelled by the real number it denotes, and an arithmetic operation by the exact
  operation followed by rounding to the nearest double, a tie going to the even
  significand. \<open>round_half_even\<close> rounds a real to the nearest integer in that way.
\<close>

definition round_half_even :: "real \<Rightarrow> int" where
  "round_half_even y =
     (let f = \<lfloor>y\<rfloor>
      in if y - of_int f < 1 / 2 then f
         else if y - of_int f > 1 / 2 then f + 1
         else if even f then f else f + 1)"

text \<open>
  The exponent of the binade of \<open>x\<close>, not below the least normal exponent -1022, and
  the spacing of the doubles in that binade: 53 significant bits, and the spacing
  \<open>2 powi (- 1074)\<close> below the normal range.
\<close>

definition expo :: "real \<Rightarrow> int" where
  "expo x = (if \<bar>x\<bar> < 2 powi (- 1022) then - 1022 else \<lfloor>log 2 \<bar>x\<bar>\<rfloor>)"

definition ulp :: "real \<Rightarrow> real" where
  "ulp x = 2 powi (expo x - 52)"

definition round_double :: "real \<Rightarrow> real" where
  "round_double x = of_int (round_half_even (x / ulp x)) * ulp x"

definition is_double :: "real \<Rightarrow> bool" where
  "is_double x \<longleftrightarrow> round_double x = x"

text \<open>
  A result that rounds to \<open>2 powi 1024\<close> or beyond is an infinity in the program, which
  goes on computing with it. The model follows the finite doubles only: \<open>fl\<close> gives
  \<open>None\<close> for such a result, and a run with such a result is a run the model says
  nothing more about.
\<close>

definition fl :: "real \<Rightarrow> real option" where
  "fl x = (let r = round_double x in if \<bar>r\<bar> < 2 powi 1024 then Some r else None)"

text \<open>How a run of a generator on its injected draws can end before the draws do.\<close>

datatype halt = Raised error | NonFinite

text \<open>\<^verbatim>\<open>int(x)\<close> on a float truncates towards zero.\<close>

definition py_int :: "real \<Rightarrow> int" where
  "py_int x = (if 0 \<le> x then \<lfloor>x\<rfloor> else \<lceil>x\<rceil>)"

text \<open>
  Python's \<^verbatim>\<open>x % y\<close> on floats, for a divisor that is not zero: the C function \<^verbatim>\<open>fmod\<close>,
  which is exact and has the sign of \<open>x\<close>, and then, when the remainder is not zero and
  its sign differs from the divisor's, the floating-point addition of the divisor.
\<close>

definition py_mod :: "real \<Rightarrow> real \<Rightarrow> real option" where
  "py_mod x y =
     (let m = x - y * of_int (py_int (x / y))
      in if m \<noteq> 0 \<and> ((y < 0) \<noteq> (m < 0)) then fl (m + y) else Some m)"

subsection \<open>\<^verbatim>\<open>bwalk\<close>\<close>

text \<open>
  The expression \<^verbatim>\<open>abs((max % (rng * 2)) - rng) + min\<close> that \<^verbatim>\<open>bwalk\<close> yields, for the
  accumulator \<^verbatim>\<open>max\<close> after its update. \<^verbatim>\<open>%\<close> raises \<^verbatim>\<open>ZeroDivisionError\<close> when
  \<^verbatim>\<open>rng * 2\<close> is zero.
\<close>

definition bwalk_emit :: "real \<Rightarrow> real \<Rightarrow> real \<Rightarrow> halt + real" where
  "bwalk_emit mn rng mx =
     (case fl (rng * 2) of
        None \<Rightarrow> Inl NonFinite
      | Some rng2 \<Rightarrow>
          if rng2 = 0 then Inl (Raised ZeroDivisionError)
          else (case py_mod mx rng2 of
                  None \<Rightarrow> Inl NonFinite
                | Some m \<Rightarrow>
                    (case fl (m - rng) of
                       None \<Rightarrow> Inl NonFinite
                     | Some d \<Rightarrow>
                         (case fl (\<bar>d\<bar> + mn) of
                            None \<Rightarrow> Inl NonFinite
                          | Some v \<Rightarrow> Inr v))))"

text \<open>
  The loop of \<^verbatim>\<open>bwalk(min, max, std)\<close>, run for as many turns as there are draws.
  \<open>draws\<close> are the values of \<^verbatim>\<open>normalvariate(0, std)\<close>, turn by turn; the accumulator is
  the variable \<^verbatim>\<open>max\<close> itself, updated by \<^verbatim>\<open>max += normalvariate(0, std)\<close>. The result
  is the list of the values yielded and how the run ended, if it ended before the draws.
\<close>

fun bwalk_loop :: "real \<Rightarrow> real \<Rightarrow> real \<Rightarrow> real list \<Rightarrow> real list \<times> halt option" where
  "bwalk_loop mn rng mx [] = ([], None)"
| "bwalk_loop mn rng mx (d # draws) =
     (case fl (mx + d) of
        None \<Rightarrow> ([], Some NonFinite)
      | Some mx' \<Rightarrow>
          (case bwalk_emit mn rng mx' of
             Inl h \<Rightarrow> ([], Some h)
           | Inr v \<Rightarrow>
               (case bwalk_loop mn rng mx' draws of
                  (vs, h) \<Rightarrow> (v # vs, h))))"

text \<open>\<^verbatim>\<open>bwalk(min, max, std)\<close>: \<^verbatim>\<open>rng = max - min\<close>, then the loop.\<close>

definition bwalk :: "real \<Rightarrow> real \<Rightarrow> real \<Rightarrow> real list \<Rightarrow> real list \<times> halt option" where
  "bwalk mn mx std draws =
     (case fl (mx - mn) of
        None \<Rightarrow> ([], Some NonFinite)
      | Some rng \<Rightarrow> bwalk_loop mn rng mx draws)"

subsection \<open>\<^verbatim>\<open>orders\<close>\<close>

text \<open>
  \<^verbatim>\<open>normalvariate(mu, sigma)\<close> of the standard library returns \<^verbatim>\<open>mu + z * sigma\<close> for a
  standard normal variate \<open>z\<close> that it draws; \<open>z\<close> is the injected draw.
\<close>

definition normalvariate :: "real \<Rightarrow> real \<Rightarrow> real \<Rightarrow> real option" where
  "normalvariate mu sigma z = do { p \<leftarrow> fl (z * sigma); fl (mu + p) }"

text \<open>
  \<^verbatim>\<open>round(x, 2)\<close> on a float: the exact value of \<open>x\<close> rounded to the nearest hundredth,
  a tie to the even one, and the double nearest to that decimal.
\<close>

definition py_round2 :: "real \<Rightarrow> real option" where
  "py_round2 x = fl (of_int (round_half_even (x * 100)) / 100)"

definition OVERLAP :: real where
  "OVERLAP = 4"

text \<open>
  One turn of \<^verbatim>\<open>orders(hist)\<close>, for the market tick \<^verbatim>\<open>(t, px, spd)\<close>. The draws are, in
  the order the body takes them: the two values of \<^verbatim>\<open>random()\<close> and the two standard
  normal variates behind the calls of \<^verbatim>\<open>normalvariate\<close>. The result is the tuple
  yielded, or \<open>None\<close> when an operation leaves the finite doubles.
\<close>

definition orders_step :: "int \<times> real \<times> real \<Rightarrow> real \<times> real \<times> real \<times> real \<Rightarrow> row option" where
  "orders_step tick draws =
     (case tick of (t, px, spd) \<Rightarrow>
      case draws of (u1, u2, z1, z2) \<Rightarrow>
        let stock = (if u1 > 0.5 then ''ABC'' else ''DEF'');
            side_d = (if u2 > 0.5 then (''sell'', 2) else (''buy'', - 2))
        in do {
             half \<leftarrow> fl (spd / snd side_d);
             mu \<leftarrow> fl (px + half);
             sigma \<leftarrow> fl (spd / OVERLAP);
             x \<leftarrow> normalvariate mu sigma z1;
             order \<leftarrow> py_round2 x;
             y \<leftarrow> normalvariate 0 100 z2;
             Some (t, stock, fst side_d, order, py_int \<bar>y\<bar>)
           })"

text \<open>
  \<^verbatim>\<open>orders(hist)\<close> over a finite history, one tuple of draws per tick, as far as the
  arithmetic stays in the finite doubles.
\<close>

fun orders :: "(int \<times> real \<times> real) list \<Rightarrow> (real \<times> real \<times> real \<times> real) list \<Rightarrow> row list" where
  "orders (tick # hist) (draws # rest) =
     (case orders_step tick draws of
        None \<Rightarrow> []
      | Some r \<Rightarrow> r # orders hist rest)"
| "orders hist rest = []"

text \<open>The fields of an order tuple.\<close>

definition row_side :: "row \<Rightarrow> string" where
  "row_side r = fst (snd (snd r))"

definition row_price :: "row \<Rightarrow> real" where
  "row_price r = fst (snd (snd (snd r)))"

definition row_size :: "row \<Rightarrow> int" where
  "row_size r = snd (snd (snd (snd r)))"

text \<open>The divisor \<^verbatim>\<open>d\<close> that \<^verbatim>\<open>orders\<close> pairs with a side.\<close>

definition side_divisor :: "string \<Rightarrow> real" where
  "side_divisor side = (if side = ''sell'' then 2 else - 2)"

section \<open>Properties of \<^verbatim>\<open>clear_order\<close>\<close>

lemma age_book_conv:
  "age_book b = map (\<lambda>(p, s, a). (p, s, a - 1)) (filter (\<lambda>(p, s, a). 0 < a) b)"
  by (induction b rule: age_book.induct) simp_all

text \<open>
  C8. When the incoming price crosses the top entry, the top's size is at most the
  incoming size and the book has no further entry, \<^verbatim>\<open>clear_order\<close> returns \<^verbatim>\<open>None\<close>;
  this includes the incoming size being exactly the top's size.
\<close>

theorem clear_order_no_depth_none:
  assumes "op order top_order" and "top_size \<le> sz"
  shows "clear_order order sz [(top_order, top_size, age)] op notional = Inr None"
  using assms by simp

theorem clear_order_no_depth_none_witness:
  "operator_ge 100 90 \<and> (20::int) \<le> 20
   \<and> clear_order 100 20 [(90, 20, 10)] operator_ge 0 = Inr None"
proof -
  have c: "operator_ge 100 90" by (simp add: operator_ge_def)
  have s: "(20::int) \<le> 20" by simp
  show ?thesis
    using c s
      clear_order_no_depth_none [where op = operator_ge and order = 100 and top_order = 90
        and top_size = 20 and sz = 20 and age = 10 and notional = 0]
    by simp
qed

text \<open>
  C4, as stated. The sell-side entry of \<^verbatim>\<open>ops\<close> is \<^verbatim>\<open>operator.ge\<close> (also the default of
  \<^verbatim>\<open>clear_order\<close>). With it a sell order at 100 does not cross a bid at 101, since
  \<^verbatim>\<open>100 >= 101\<close> is false, and \<^verbatim>\<open>clear_order\<close> returns \<^verbatim>\<open>None\<close>.
\<close>

theorem clear_order_sell_comparator_counterexample:
  "ops ''sell'' = Some operator_ge
   \<and> clear_order 100 30 [(101, 50, 10)] operator_ge 0 = Inr None
   \<and> clear_order 100 30 [(101, 50, 10)] operator_ge 0 \<noteq> Inr (Some (30 * 101, [(101, 20, 10)]))"
  by (simp add: ops_def operator_ge_def)

text \<open>
  C4, amended. For the bid book \<^verbatim>\<open>[(101,50,10)]\<close> and the incoming sell order
  \<^verbatim>\<open>(100, 30)\<close>, \<^verbatim>\<open>clear_order\<close> with the comparator \<^verbatim>\<open>operator.le\<close> (the entry
  \<^verbatim>\<open>ops['buy']\<close>) returns the notional \<^verbatim>\<open>30*101\<close> and the bid book \<^verbatim>\<open>[(101,20,10)]\<close>,
  the remainder keeping its age 10; with \<^verbatim>\<open>ops['sell']\<close>, which is \<^verbatim>\<open>operator.ge\<close>, it
  returns \<^verbatim>\<open>None\<close>.
\<close>

theorem clear_order_partial_fill_scenario:
  "ops ''buy'' = Some operator_le
   \<and> clear_order 100 30 [(101, 50, 10)] operator_le 0 = Inr (Some (30 * 101, [(101, 20, 10)]))
   \<and> ops ''sell'' = Some operator_ge
   \<and> clear_order 100 30 [(101, 50, 10)] operator_ge 0 = Inr None"
  by (simp add: ops_def operator_le_def operator_ge_def add_book_def)

text \<open>
  \<^verbatim>\<open>clear_order\<close> raises only on an empty book, and the loop of \<^verbatim>\<open>clear_book\<close> calls it
  on non-empty books only, so \<^verbatim>\<open>clear_book\<close> raises nothing.
\<close>

lemma clear_order_nonempty:
  "book \<noteq> [] \<Longrightarrow> clear_order order sz book op notional \<noteq> Inl e"
proof (induction book arbitrary: sz notional)
  case Nil
  then show ?case by simp
next
  case (Cons top tail)
  obtain top_order top_size age where top: "top = (top_order, top_size, age)"
    by (cases top)
  show ?case
  proof (cases "tail = []")
    case True
    with top show ?thesis by (simp add: Let_def)
  next
    case False
    with Cons.IH top show ?thesis by (simp add: Let_def)
  qed
qed

lemma clear_book_loop_total: "clear_book_loop buy sell \<noteq> Inl e"
proof (induction buy sell rule: clear_book_loop.induct)
  case (1 sell)
  show ?case by simp
next
  case (2 b buy)
  show ?case by simp
next
  case (3 order sz age buy s sell)
  show ?case
  proof (cases "clear_order order sz (s # sell) operator_ge 0")
    case (Inl e')
    with clear_order_nonempty [of "s # sell" order sz operator_ge 0 e'] show ?thesis by simp
  next
    case (Inr res)
    with 3 show ?thesis by (cases res) simp_all
  qed
qed

lemma clear_book_total: "clear_book buy sell \<noteq> Inl e"
  using clear_book_loop_total
  by (auto simp: clear_book_def split: option.splits sum.splits)

text \<open>
  C5, as stated. Against the bid book \<^verbatim>\<open>[(101,20,10)]\<close> the sell order \<^verbatim>\<open>(100,20)\<close>
  gets \<^verbatim>\<open>None\<close> under either comparator of \<^verbatim>\<open>ops\<close>, not an emptied book; and on the
  empty book \<^verbatim>\<open>clear_order\<close> raises \<^verbatim>\<open>IndexError\<close> at \<^verbatim>\<open>book[0]\<close>.
\<close>

theorem clear_order_full_consumption_counterexample:
  "clear_order 100 20 [(101, 20, 10)] operator_ge 0 = Inr None
   \<and> clear_order 100 20 [(101, 20, 10)] operator_le 0 = Inr None
   \<and> clear_order 100 5 [] operator_ge 0 = Inl IndexError
   \<and> clear_order 100 5 [] operator_le 0 = Inl IndexError"
  by (simp add: operator_le_def operator_ge_def)

text \<open>
  C5, amended. For the bid book \<^verbatim>\<open>[(101,20,10)]\<close> and the incoming sell order
  \<^verbatim>\<open>(100,20)\<close>, \<^verbatim>\<open>clear_order\<close> with the sell-side comparator \<^verbatim>\<open>ops['sell']\<close>, which is
  \<^verbatim>\<open>operator.ge\<close>, finds no cross and returns \<^verbatim>\<open>None\<close>, whatever the notional so far: the
  level is not consumed and no emptied book is returned. On an empty book \<^verbatim>\<open>clear_order\<close>
  raises \<^verbatim>\<open>IndexError\<close> for every order and comparator; its caller \<^verbatim>\<open>clear_book\<close> tests
  both books before it calls, raises nothing, and returns an empty or absent buy book
  unchanged together with the sell book.
\<close>

theorem clear_order_full_consumption_scenario:
  "ops ''sell'' = Some operator_ge
   \<and> clear_order 100 20 [(101, 20, 10)] operator_ge notional = Inr None
   \<and> clear_order order sz [] op notional = Inl IndexError
   \<and> clear_book (Some []) sell = Inr (Some [], sell)
   \<and> clear_book None sell = Inr (None, sell)
   \<and> clear_book buy sell \<noteq> Inl e"
proof -
  have "clear_book (Some []) sell = Inr (Some [], sell)"
    by (cases sell) (simp_all add: clear_book_def)
  moreover have "clear_book None sell = Inr (None, sell)"
    by (simp add: clear_book_def)
  moreover have "clear_order 100 20 [(101, 20, 10)] operator_ge notional = Inr None"
    by (simp add: operator_ge_def)
  moreover have "ops ''sell'' = Some operator_ge"
    by (simp add: ops_def)
  ultimately show ?thesis
    using clear_book_total [of buy sell e] by simp
qed

text \<open>
  C10. A call of \<^verbatim>\<open>clear_order\<close> whose order crosses the top entry and whose size is
  strictly less than the top's size returns the book made of the old top with its size
  reduced and its age unchanged, followed by the old tail aged as \<^verbatim>\<open>add_book\<close> ages a
  book: every age decremented by one, the entries that are not of positive age dropped
  (for ages that are not negative, as \<^verbatim>\<open>add_book\<close> produces them: the entries of age 0).
\<close>

theorem clear_order_partial_fill_book:
  assumes "op order top_order" and "sz < top_size"
  shows "clear_order order sz ((top_order, top_size, age) # tail) op notional
           = Inr (Some (notional + of_int sz * top_order,
                        add_book tail top_order (top_size - sz) age))
         \<and> add_book tail top_order (top_size - sz) age
           = (top_order, top_size - sz, age)
             # map (\<lambda>(p, s, a). (p, s, a - 1)) (filter (\<lambda>(p, s, a). 0 < a) tail)
         \<and> ((\<forall>e \<in> set tail. 0 \<le> snd (snd e)) \<longrightarrow>
              filter (\<lambda>(p, s, a). 0 < a) tail = filter (\<lambda>(p, s, a). a \<noteq> 0) tail)"
proof -
  have "(\<forall>e \<in> set tail. 0 \<le> snd (snd e)) \<longrightarrow>
          filter (\<lambda>(p, s, a). 0 < a) tail = filter (\<lambda>(p, s, a). a \<noteq> 0) tail"
    by (induction tail) auto
  moreover have "min sz top_size = sz" using assms(2) by simp
  ultimately show ?thesis
    using assms by (simp add: add_book_def age_book_conv)
qed

theorem clear_order_partial_fill_book_witness:
  "operator_le 100 101 \<and> (30::int) < 50
   \<and> clear_order 100 30 [(101, 50, 10), (99, 5, 0), (98, 7, 3)] operator_le 0
       = Inr (Some (3030, [(101, 20, 10), (98, 7, 2)]))
   \<and> filter (\<lambda>(p, s, a). 0 < a) [(99::real, 5::int, 0::int), (98, 7, 3)]
       = filter (\<lambda>(p, s, a). a \<noteq> 0) [(99, 5, 0), (98, 7, 3)]"
proof -
  have c: "operator_le 100 101" by (simp add: operator_le_def)
  have s: "(30::int) < 50" by simp
  show ?thesis
    using c s
      clear_order_partial_fill_book [where op = operator_le and order = 100 and top_order = 101
        and top_size = 50 and sz = 30 and age = 10 and notional = 0
        and tail = "[(99, 5, 0), (98, 7, 3)]"]
    by simp
qed

section \<open>Properties of \<^verbatim>\<open>clear_book\<close> and \<^verbatim>\<open>order_book\<close>\<close>

text \<open>
  C2, evaluated on the code. The buy book \<^verbatim>\<open>[(100,20,10)]\<close> and the sell book
  \<^verbatim>\<open>[(90,20,10)]\<close> are crossed, and the two orders match exactly. \<^verbatim>\<open>clear_order\<close> returns
  \<^verbatim>\<open>None\<close> because no depth is left after the level, \<^verbatim>\<open>clear_book\<close> breaks and returns
  both books as they were, still crossed. The same happens when the buy order is larger
  than the depth of the sell book. \<^verbatim>\<open>order_book\<close> yields the crossed pair for the rows
  sell 20 at 90, buy 20 at 100.
\<close>

theorem clear_book_leaves_crossed:
  "clear_book (Some [(100, 20, 10)]) (Some [(90, 20, 10)])
     = Inr (Some [(100, 20, 10)], Some [(90, 20, 10)])
   \<and> \<not> uncrossed (Some [(100, 20, 10)]) (Some [(90, 20, 10)])
   \<and> clear_book (Some [(100, 50, 10)]) (Some [(90, 20, 10)])
     = Inr (Some [(100, 50, 10)], Some [(90, 20, 10)])
   \<and> \<not> uncrossed (Some [(100, 50, 10)]) (Some [(90, 20, 10)])
   \<and> order_book [(0, ''ABC'', ''sell'', 90, 20), (1, ''ABC'', ''buy'', 100, 20)] [] ''ABC''
     = [(0, None, Some [(90, 20, 10)]), (1, Some [(100, 20, 10)], Some [(90, 20, 10)])]"
  by (simp add: clear_book_def operator_ge_def order_book_step_def insert_row_def
      clear_book_kwargs_def book_get_def sorted_side_def add_book_def)

text \<open>
  The dictionary after a turn of \<^verbatim>\<open>order_book\<close> is the dictionary after the insertion:
  what \<^verbatim>\<open>clear_book\<close> returns does not reach it.
\<close>

lemma order_book_step_book:
  "snd (order_book_step stock_name book r) = insert_row stock_name book r"
  by (simp add: order_book_step_def Let_def split: sum.splits prod.splits)

lemma order_book_step_snapshot:
  "fst (order_book_step stock_name book r) = Inr snap \<Longrightarrow>
     fst snap = fst r \<and> clear_book_kwargs (insert_row stock_name book r) = Inr (snd snap)"
  by (auto simp: order_book_step_def Let_def split: sum.splits prod.splits)

text \<open>
  C1, amended. \<^verbatim>\<open>order_book\<close> folds the dictionary through the insertions alone. The
  snapshot yielded at an event carries the event's timestamp and the result of
  \<^verbatim>\<open>clear_book\<close> on the books obtained by inserting all events so far, in order, into the
  initial books; the books an order is inserted into are the inserted books of the
  previous event, not the cleared ones.
\<close>

theorem order_book_snapshots_of_inserted_books:
  assumes "i < length (order_book rows book stock_name)"
  shows "fst (order_book rows book stock_name ! i) = fst (rows ! i)
         \<and> clear_book_kwargs (foldl (insert_row stock_name) book (take (Suc i) rows))
             = Inr (snd (order_book rows book stock_name ! i))"
  using assms
proof (induction rows arbitrary: book i)
  case Nil
  then show ?case by simp
next
  case (Cons r rows)
  obtain res book' where step: "order_book_step stock_name book r = (res, book')"
    by (cases "order_book_step stock_name book r")
  have book': "book' = insert_row stock_name book r"
    using order_book_step_book [of stock_name book r] step by simp
  show ?case
  proof (cases res)
    case (Inl e)
    with step Cons.prems show ?thesis by simp
  next
    case (Inr snap)
    have run: "order_book (r # rows) book stock_name = snap # order_book rows book' stock_name"
      using step Inr by simp
    have snap: "fst snap = fst r \<and> clear_book_kwargs book' = Inr (snd snap)"
      using order_book_step_snapshot [of stock_name book r snap] step Inr book' by simp
    show ?thesis
    proof (cases i)
      case 0
      then show ?thesis using run snap book' by simp
    next
      case (Suc j)
      then have "j < length (order_book rows book' stock_name)"
        using Cons.prems run by simp
      from Cons.IH [OF this] show ?thesis
        using run Suc book' by simp
    qed
  qed
qed

text \<open>
  C1, as stated. Rows: sell 50 at 90, buy 20 at 100, buy 40 at 100, all for the stock
  followed. The second snapshot shows the buy order fully matched (no bids, 30 left at
  90). The dictionary after that event still holds the buy order and the full 50 at 90,
  and the third snapshot shows the matched buy order again, resting with 20, where the
  pipeline that stores the cleared books (\<open>order_book_spec\<close>) shows the new order only.
\<close>

theorem order_book_feedback_counterexample:
  "order_book [(0, ''ABC'', ''sell'', 90, 50), (1, ''ABC'', ''buy'', 100, 20),
               (2, ''ABC'', ''buy'', 100, 40)] [] ''ABC''
     = [(0, None, Some [(90, 50, 10)]), (1, Some [], Some [(90, 30, 10)]),
        (2, Some [(100, 20, 9)], Some [(90, 10, 10)])]
   \<and> order_book_spec [(0, ''ABC'', ''sell'', 90, 50), (1, ''ABC'', ''buy'', 100, 20),
               (2, ''ABC'', ''buy'', 100, 40)] [] ''ABC''
     = [(0, None, Some [(90, 50, 10)]), (1, Some [], Some [(90, 30, 10)]),
        (2, Some [(100, 40, 10)], Some [(90, 30, 10)])]
   \<and> snd (order_book_step ''ABC'' [(''sell'', [(90, 50, 10)])] (1, ''ABC'', ''buy'', 100, 20))
     = [(''sell'', [(90, 50, 10)]), (''buy'', [(100, 20, 10)])]"
  by (simp add: clear_book_def operator_ge_def order_book_step_def insert_row_def
      clear_book_kwargs_def book_get_def sorted_side_def add_book_def store_cleared_def)

theorem order_book_snapshots_of_inserted_books_witness:
  "(2::nat) < length (order_book [(0, ''ABC'', ''sell'', 90, 50), (1, ''ABC'', ''buy'', 100, 20),
               (2, ''ABC'', ''buy'', 100, 40)] [] ''ABC'')
   \<and> clear_book_kwargs [(''sell'', [(90, 50, 10)]), (''buy'', [(100, 40, 10), (100, 20, 9)])]
      = Inr (Some [(100, 20, 9)], Some [(90, 10, 10)])"
proof -
  have run: "order_book [(0, ''ABC'', ''sell'', 90, 50), (1, ''ABC'', ''buy'', 100, 20),
               (2, ''ABC'', ''buy'', 100, 40)] [] ''ABC''
     = [(0, None, Some [(90, 50, 10)]), (1, Some [], Some [(90, 30, 10)]),
        (2, Some [(100, 20, 9)], Some [(90, 10, 10)])]"
    by (simp add: clear_book_def operator_ge_def order_book_step_def insert_row_def
      clear_book_kwargs_def book_get_def sorted_side_def add_book_def)
  have len: "(2::nat) < length (order_book [(0, ''ABC'', ''sell'', 90, 50),
               (1, ''ABC'', ''buy'', 100, 20), (2, ''ABC'', ''buy'', 100, 40)] [] ''ABC'')"
    unfolding run by simp
  have ins: "foldl (insert_row ''ABC'') [] (take (Suc 2) [(0, ''ABC'', ''sell'', 90, 50),
               (1, ''ABC'', ''buy'', 100, 20), (2, ''ABC'', ''buy'', 100, 40)])
     = [(''sell'', [(90, 50, 10)]), (''buy'', [(100, 40, 10), (100, 20, 9)])]"
    by (simp add: insert_row_def book_get_def sorted_side_def add_book_def)
  show ?thesis
    using len order_book_snapshots_of_inserted_books [OF len] unfolding run ins by simp
qed

section \<open>Pacing\<close>

text \<open>
  The definitions unfolded to run the model on concrete rows.
\<close>

lemmas run_defs = clear_book_def operator_ge_def order_book_step_def insert_row_def
      clear_book_kwargs_def book_get_def sorted_side_def add_book_def
      next_data_1_def next_data_2_def read_10_first_lines_def initialize_data_feeds_def
      app_init_def current_book_1_def current_book_2_def query_pull_def handle_query_def
      ticking_clock_def recorded_rows_def REALTIME_def response_times_def

lemma order_book_step_time:
  "order_book_step stock_name book r = (Inr snap, book') \<Longrightarrow> fst snap = fst r"
  by (auto simp: order_book_step_def Let_def split: sum.splits prod.splits)

text \<open>
  With \<^verbatim>\<open>REALTIME\<close>, the pacing generator reads the rows in order and tests each
  snapshot once, at its own reading of the clock. The snapshot it yields is that of the
  first row whose timestamp is greater than the simulated time at its test; every row
  before it was tested and found not to be ahead of the clock.
\<close>

lemma current_book_next_first_ahead:
  "current_book_next True sim rt clock k stock_name rows book = (Inr snap, k', rest, book')
   \<Longrightarrow> \<exists>s i. sim = Some s \<and> i < length rows \<and> k' = k + i + 1
         \<and> rest = drop (Suc i) rows
         \<and> i < length (order_book rows book stock_name)
         \<and> snap = order_book rows book stock_name ! i
         \<and> fst snap = fst (rows ! i)
         \<and> fst (rows ! i) > s + (clock (k + i) - rt)
         \<and> (\<forall>j < i. fst (rows ! j) \<le> s + (clock (k + j) - rt))"
proof (induction rows arbitrary: k book)
  case Nil
  then show ?case by simp
next
  case (Cons r rows)
  obtain res b1 where step: "order_book_step stock_name book r = (res, b1)"
    by (cases "order_book_step stock_name book r")
  show ?case
  proof (cases res)
    case (Inl e)
    with step Cons.prems show ?thesis by simp
  next
    case (Inr sn)
    have time: "fst sn = fst r"
      using order_book_step_time step Inr by blast
    have ob: "order_book (r # rows) book stock_name = sn # order_book rows b1 stock_name"
      using step Inr by simp
    show ?thesis
    proof (cases sim)
      case None
      with step Inr Cons.prems show ?thesis by simp
    next
      case (Some s)
      show ?thesis
      proof (cases "fst sn > s + (clock k - rt)")
        case True
        with step Inr Some Cons.prems have "snap = sn" "k' = k + 0 + 1" "rest = rows"
          by simp_all
        with True time ob Some have
          "sim = Some s \<and> 0 < length (r # rows) \<and> k' = k + 0 + 1
           \<and> rest = drop (Suc 0) (r # rows)
           \<and> 0 < length (order_book (r # rows) book stock_name)
           \<and> snap = order_book (r # rows) book stock_name ! 0
           \<and> fst snap = fst ((r # rows) ! 0)
           \<and> fst ((r # rows) ! 0) > s + (clock (k + 0) - rt)
           \<and> (\<forall>j < 0. fst ((r # rows) ! j) \<le> s + (clock (k + j) - rt))"
          by simp
        then show ?thesis by blast
      next
        case False
        with step Inr Some Cons.prems
        have "current_book_next True sim rt clock (Suc k) stock_name rows b1
                = (Inr snap, k', rest, book')"
          by simp
        from Cons.IH [OF this] obtain s' i where
          ih: "sim = Some s'" "i < length rows" "k' = Suc k + i + 1"
            "rest = drop (Suc i) rows"
            "i < length (order_book rows b1 stock_name)"
            "snap = order_book rows b1 stock_name ! i"
            "fst snap = fst (rows ! i)"
            "fst (rows ! i) > s' + (clock (Suc k + i) - rt)"
            "\<forall>j < i. fst (rows ! j) \<le> s' + (clock (Suc k + j) - rt)"
          by blast
        from ih(1) Some have s': "s' = s" by simp
        have passed: "\<forall>j < Suc i. fst ((r # rows) ! j) \<le> s + (clock (k + j) - rt)"
        proof (intro allI impI)
          fix j assume j: "j < Suc i"
          show "fst ((r # rows) ! j) \<le> s + (clock (k + j) - rt)"
          proof (cases j)
            case 0
            with False time show ?thesis by simp
          next
            case (Suc j')
            with j ih(9) s' show ?thesis by simp
          qed
        qed
        from ih s' ob passed have
          "sim = Some s \<and> Suc i < length (r # rows) \<and> k' = k + Suc i + 1
           \<and> rest = drop (Suc (Suc i)) (r # rows)
           \<and> Suc i < length (order_book (r # rows) book stock_name)
           \<and> snap = order_book (r # rows) book stock_name ! Suc i
           \<and> fst snap = fst ((r # rows) ! Suc i)
           \<and> fst ((r # rows) ! Suc i) > s + (clock (k + Suc i) - rt)
           \<and> (\<forall>j < Suc i. fst ((r # rows) ! j) \<le> s + (clock (k + j) - rt))"
          by simp
        then show ?thesis by blast
      qed
    qed
  qed
qed

text \<open>
  Conversely, when the rows up to one that is ahead of the clock at its test are read
  without an exception, and every row before it is not ahead at its own test, the
  generator yields the snapshot of that row.
\<close>

lemma current_book_next_returns:
  assumes "i < length (order_book rows book stock_name)"
    and "fst (rows ! i) > s + (clock (k + i) - rt)"
    and "\<forall>j < i. fst (rows ! j) \<le> s + (clock (k + j) - rt)"
  shows "fst (current_book_next True (Some s) rt clock k stock_name rows book)
           = Inr (order_book rows book stock_name ! i)"
  using assms
proof (induction rows arbitrary: k book i)
  case Nil
  then show ?case by simp
next
  case (Cons r rows)
  obtain res b1 where step: "order_book_step stock_name book r = (res, b1)"
    by (cases "order_book_step stock_name book r")
  show ?case
  proof (cases res)
    case (Inl e)
    with step Cons.prems(1) show ?thesis by simp
  next
    case (Inr sn)
    have time: "fst sn = fst r"
      using order_book_step_time step Inr by blast
    have ob: "order_book (r # rows) book stock_name = sn # order_book rows b1 stock_name"
      using step Inr by simp
    show ?thesis
    proof (cases i)
      case 0
      with Cons.prems(2) time step Inr ob show ?thesis by simp
    next
      case (Suc i')
      from Cons.prems(3) Suc time have skip: "\<not> fst sn > s + (clock k - rt)"
        by fastforce
      have 1: "i' < length (order_book rows b1 stock_name)"
        using Cons.prems(1) ob Suc by simp
      have 2: "fst (rows ! i') > s + (clock (Suc k + i') - rt)"
        using Cons.prems(2) Suc by simp
      have 3: "\<forall>j < i'. fst (rows ! j) \<le> s + (clock (Suc k + j) - rt)"
      proof (intro allI impI)
        fix j assume "j < i'"
        then have "Suc j < i" using Suc by simp
        with Cons.prems(3) have "fst ((r # rows) ! Suc j) \<le> s + (clock (k + Suc j) - rt)"
          by blast
        then show "fst (rows ! j) \<le> s + (clock (Suc k + j) - rt)" by simp
      qed
      from Cons.IH [OF 1 2 3] step Inr skip ob Suc show ?thesis by simp
    qed
  qed
qed

text \<open>
  C3, amended. With real-time pacing enabled, the snapshot that
  \<^verbatim>\<open>next(self._current_book_1)\<close> returns is the snapshot of the first row, in replay
  order, whose timestamp is strictly greater than \<^verbatim>\<open>_sim_start + (now - _rt_start)\<close> at
  the reading \<open>now\<close> of the clock taken for its test. Each snapshot before it has been
  read and passed over, because at its own test its timestamp was at most
  \<^verbatim>\<open>_sim_start + (now - _rt_start)\<close>; these and the returned one are consumed from the
  replay.
\<close>

theorem current_book_1_first_ahead_of_clock:
  assumes "current_book_1 clock k a = (Inr (t, bids, asks), k', a')"
  shows "\<exists>s i. sim_start a = Some s \<and> i < length (data_1 a) \<and> k' = k + i + 1
           \<and> data_1 a' = drop (Suc i) (data_1 a)
           \<and> i < length (order_book (data_1 a) (book_1 a) ''ABC'')
           \<and> (t, bids, asks) = order_book (data_1 a) (book_1 a) ''ABC'' ! i
           \<and> t = fst (data_1 a ! i)
           \<and> t > s + (clock (k + i) - rt_start a)
           \<and> (\<forall>j < i. fst (data_1 a ! j) \<le> s + (clock (k + j) - rt_start a))"
proof -
  obtain res k1 rows book where
    nxt: "current_book_next True (sim_start a) (rt_start a) clock k ''ABC'' (data_1 a) (book_1 a)
            = (res, k1, rows, book)"
    by (cases "current_book_next True (sim_start a) (rt_start a) clock k ''ABC''
                 (data_1 a) (book_1 a)") auto
  with assms have res: "res = Inr (t, bids, asks)" and k1: "k1 = k'"
    and a': "a' = a\<lparr>data_1 := rows, book_1 := book\<rparr>"
    by (simp_all add: current_book_1_def REALTIME_def)
  from current_book_next_first_ahead [OF nxt [unfolded res k1]] a'
  show ?thesis by auto
qed

text \<open>
  C3, as stated. Snapshots at 3600, 10800 and 14400, simulated and wall-clock start at
  0, the clock at 7200: the snapshot at 3600 is passed over and the one at 10800 is
  returned, which is later than the simulated time 7202 at the next reading of the clock.
\<close>

theorem current_book_1_pacing_counterexample:
  "fst (current_book_1 (ticking_clock 7200) 0
     \<lparr>book_1 = [], book_2 = [],
      data_1 = [(3600, ''ABC'', ''sell'', 100, 1), (10800, ''ABC'', ''sell'', 100, 1),
                (14400, ''ABC'', ''sell'', 100, 1)],
      data_2 = [], rt_start = 0, sim_start = Some 0\<rparr>)
     = Inr (10800, None, Some [(100, 1, 10), (100, 1, 9)])
   \<and> fst (snd (current_book_1 (ticking_clock 7200) 0
     \<lparr>book_1 = [], book_2 = [],
      data_1 = [(3600, ''ABC'', ''sell'', 100, 1), (10800, ''ABC'', ''sell'', 100, 1),
                (14400, ''ABC'', ''sell'', 100, 1)],
      data_2 = [], rt_start = 0, sim_start = Some 0\<rparr>)) = 2
   \<and> \<not> (10800 \<le> (0::int) + (ticking_clock 7200 2 - 0))"
  by (simp add: run_defs)

theorem current_book_1_first_ahead_of_clock_witness:
  "current_book_1 (ticking_clock 7200) 0
     \<lparr>book_1 = [], book_2 = [],
      data_1 = [(3600, ''ABC'', ''sell'', 100, 1), (10800, ''ABC'', ''sell'', 100, 1),
                (14400, ''ABC'', ''sell'', 100, 1)],
      data_2 = [], rt_start = 0, sim_start = Some 0\<rparr>
     = (Inr (10800, None, Some [(100, 1, 10), (100, 1, 9)]), 2,
        \<lparr>book_1 = [(''sell'', [(100, 1, 10), (100, 1, 9)])], book_2 = [],
         data_1 = [(14400, ''ABC'', ''sell'', 100, 1)],
         data_2 = [], rt_start = 0, sim_start = Some 0\<rparr>)
   \<and> (10800::int) > 0 + (ticking_clock 7200 (0 + 1) - 0)
   \<and> (3600::int) \<le> 0 + (ticking_clock 7200 (0 + 0) - 0)
   \<and> order_book [(3600, ''ABC'', ''sell'', 100, 1), (10800, ''ABC'', ''sell'', 100, 1),
                (14400, ''ABC'', ''sell'', 100, 1)] [] ''ABC'' ! 1
      = (10800, None, Some [(100, 1, 10), (100, 1, 9)])"
proof -
  have run: "current_book_1 (ticking_clock 7200) 0
     \<lparr>book_1 = [], book_2 = [],
      data_1 = [(3600, ''ABC'', ''sell'', 100, 1), (10800, ''ABC'', ''sell'', 100, 1),
                (14400, ''ABC'', ''sell'', 100, 1)],
      data_2 = [], rt_start = 0, sim_start = Some 0\<rparr>
     = (Inr (10800, None, Some [(100, 1, 10), (100, 1, 9)]), 2,
        \<lparr>book_1 = [(''sell'', [(100, 1, 10), (100, 1, 9)])], book_2 = [],
         data_1 = [(14400, ''ABC'', ''sell'', 100, 1)],
         data_2 = [], rt_start = 0, sim_start = Some 0\<rparr>)"
    by (simp add: run_defs)
  have ob: "order_book [(3600, ''ABC'', ''sell'', 100, 1), (10800, ''ABC'', ''sell'', 100, 1),
                (14400, ''ABC'', ''sell'', 100, 1)] [] ''ABC'' ! 1
      = (10800, None, Some [(100, 1, 10), (100, 1, 9)])"
    by (simp add: run_defs)
  from current_book_1_first_ahead_of_clock [OF run] run ob show ?thesis
    by (simp add: ticking_clock_def)
qed

section \<open>Rebuild on exhaustion\<close>

text \<open>
  A snapshot yielded by the pacing generator is the snapshot of one of the rows the data
  generator still had, and the rows up to it are consumed.
\<close>

lemma current_book_next_consumes:
  "current_book_next realtime sim rt clock k stock_name rows book = (Inr snap, k', rest, book')
   \<Longrightarrow> \<exists>i < length rows. fst snap = fst (rows ! i) \<and> rest = drop (Suc i) rows"
proof (induction rows arbitrary: k book)
  case Nil
  then show ?case by simp
next
  case (Cons r rows)
  obtain res b1 where step: "order_book_step stock_name book r = (res, b1)"
    by (cases "order_book_step stock_name book r")
  show ?case
  proof (cases res)
    case (Inl e)
    with step Cons.prems show ?thesis by simp
  next
    case (Inr sn)
    have time: "fst sn = fst r"
      using order_book_step_time step Inr by blast
    show ?thesis
    proof (cases "current_book_next realtime sim rt clock k stock_name (r # rows) book
                    = (Inr sn, (if realtime then Suc k else k), rows, b1)")
      case True
      with Cons.prems have "snap = sn" and "rest = rows" by simp_all
      with time have "fst snap = fst ((r # rows) ! 0) \<and> rest = drop (Suc 0) (r # rows)"
        by simp
      then show ?thesis by blast
    next
      case False
      with step Inr Cons.prems obtain s where
        "current_book_next realtime sim rt clock (Suc k) stock_name rows b1
           = (Inr snap, k', rest, book')"
        by (auto split: if_splits option.splits)
      from Cons.IH [OF this] obtain i where
        "i < length rows" "fst snap = fst (rows ! i)" "rest = drop (Suc i) rows"
        by blast
      then have "Suc i < length (r # rows) \<and> fst snap = fst ((r # rows) ! Suc i)
                 \<and> rest = drop (Suc (Suc i)) (r # rows)"
        by simp
      then show ?thesis by blast
    qed
  qed
qed

text \<open>
  What \<^verbatim>\<open>initialize_data_feeds\<close> consumes: unless a generator has finished, eleven rows
  of the first and ten rows of the second.
\<close>

lemma order_book_next_rows:
  "order_book_next stock_name rows book = (res, rows', book')
   \<Longrightarrow> (case res of Inl e \<Rightarrow> rows' = [] | Inr snap \<Rightarrow> rows' = drop 1 rows)"
  by (cases rows) (auto split: sum.splits prod.splits)

lemma next_data_1_fields:
  "next_data_1 a = (res, a') \<Longrightarrow>
     data_2 a' = data_2 a \<and> (case res of Inl e \<Rightarrow> data_1 a' = [] | Inr snap \<Rightarrow> data_1 a' = drop 1 (data_1 a))"
  using order_book_next_rows [of "''ABC''" "data_1 a" "book_1 a"]
  by (auto simp: next_data_1_def split: prod.splits sum.splits)

lemma next_data_2_fields:
  "next_data_2 a = (res, a') \<Longrightarrow>
     data_1 a' = data_1 a \<and> (case res of Inl e \<Rightarrow> data_2 a' = [] | Inr snap \<Rightarrow> data_2 a' = drop 1 (data_2 a))"
  using order_book_next_rows [of "''DEF''" "data_2 a" "book_2 a"]
  by (auto simp: next_data_2_def split: prod.splits sum.splits)

lemma read_lines_rows:
  "read_lines n a = (res, a') \<Longrightarrow>
     (data_1 a' = drop n (data_1 a) \<and> data_2 a' = drop n (data_2 a))
     \<or> data_1 a' = [] \<or> data_2 a' = []"
proof (induction n arbitrary: a)
  case 0
  then show ?case by simp
next
  case (Suc n)
  obtain r1 a1 where n1: "next_data_1 a = (r1, a1)" by (cases "next_data_1 a")
  note f1 = next_data_1_fields [OF n1]
  show ?case
  proof (cases r1)
    case (Inl e)
    with n1 f1 Suc.prems show ?thesis by auto
  next
    case s1: (Inr snap1)
    obtain r2 a2 where n2: "next_data_2 a1 = (r2, a2)" by (cases "next_data_2 a1")
    note f2 = next_data_2_fields [OF n2]
    show ?thesis
    proof (cases r2)
      case (Inl e)
      with n1 s1 n2 f2 Suc.prems show ?thesis by auto
    next
      case (Inr snap2)
      with n1 s1 n2 Suc.prems have "read_lines n a2 = (res, a')" by simp
      from Suc.IH [OF this] f1 f2 s1 Inr show ?thesis
        by (auto simp: drop_Suc drop_tl)
    qed
  qed
qed

lemma initialize_data_feeds_rows:
  "(data_1 (initialize_data_feeds csv a) = drop 11 csv
      \<and> data_2 (initialize_data_feeds csv a) = drop 10 csv)
   \<or> data_1 (initialize_data_feeds csv a) = []
   \<or> data_2 (initialize_data_feeds csv a) = []"
proof -
  obtain r1 a1 where n1: "next_data_1 (a\<lparr>data_1 := csv, data_2 := csv\<rparr>) = (r1, a1)"
    by (cases "next_data_1 (a\<lparr>data_1 := csv, data_2 := csv\<rparr>)")
  note f1 = next_data_1_fields [OF n1]
  show ?thesis
  proof (cases r1)
    case (Inl e)
    with n1 f1 show ?thesis by (simp add: initialize_data_feeds_def)
  next
    case (Inr snap)
    obtain res a' where rl: "read_lines 10 (a1\<lparr>sim_start := Some (fst snap)\<rparr>) = (res, a')"
      by (cases "read_lines 10 (a1\<lparr>sim_start := Some (fst snap)\<rparr>)")
    have init: "initialize_data_feeds csv a = a'"
      using n1 Inr rl by (simp add: initialize_data_feeds_def read_10_first_lines_def)
    from read_lines_rows [OF rl] f1 Inr show ?thesis
      unfolding init by auto
  qed
qed

lemma current_book_1_success:
  assumes "current_book_1 clock k a = (Inr snap, k', a')"
  shows "\<exists>i < length (data_1 a). fst snap = fst (data_1 a ! i)"
    and "data_2 a' = data_2 a" and "sim_start a' = sim_start a" and "rt_start a' = rt_start a"
proof -
  obtain res k1 rows book where
    nxt: "current_book_next REALTIME (sim_start a) (rt_start a) clock k ''ABC''
            (data_1 a) (book_1 a) = (res, k1, rows, book)"
    by (cases "current_book_next REALTIME (sim_start a) (rt_start a) clock k ''ABC''
                 (data_1 a) (book_1 a)") auto
  with assms have res: "res = Inr snap" and a': "a' = a\<lparr>data_1 := rows, book_1 := book\<rparr>"
    by (simp_all add: current_book_1_def)
  from current_book_next_consumes [OF nxt [unfolded res]]
  show "\<exists>i < length (data_1 a). fst snap = fst (data_1 a ! i)" by blast
  from a' show "data_2 a' = data_2 a" and "sim_start a' = sim_start a"
    and "rt_start a' = rt_start a" by simp_all
qed

lemma current_book_2_success:
  assumes "current_book_2 clock k a = (Inr snap, k', a')"
  shows "\<exists>i < length (data_2 a). fst snap = fst (data_2 a ! i)"
proof -
  obtain res k1 rows book where
    nxt: "current_book_next REALTIME (sim_start a) (rt_start a) clock k ''DEF''
            (data_2 a) (book_2 a) = (res, k1, rows, book)"
    by (cases "current_book_next REALTIME (sim_start a) (rt_start a) clock k ''DEF''
                 (data_2 a) (book_2 a)") auto
  with assms have res: "res = Inr snap"
    by (simp_all add: current_book_2_def)
  from current_book_next_consumes [OF nxt [unfolded res]]
  show ?thesis by blast
qed

lemma query_pull_success:
  assumes "query_pull clock k a = (Inr (snap1, snap2), k', a')"
  shows "(\<exists>i < length (data_1 a). fst snap1 = fst (data_1 a ! i))
         \<and> (\<exists>j < length (data_2 a). fst snap2 = fst (data_2 a ! j))"
proof -
  obtain r1 k1 a1 where c1: "current_book_1 clock k a = (r1, k1, a1)"
    by (cases "current_book_1 clock k a") auto
  obtain r2 k2 a2 where c2: "current_book_2 clock k1 a1 = (r2, k2, a2)"
    by (cases "current_book_2 clock k1 a1") auto
  from assms c1 c2 have r1: "r1 = Inr snap1" and r2: "r2 = Inr snap2"
    by (auto simp: query_pull_def split: sum.splits)
  from current_book_1_success [OF c1 [unfolded r1]]
    current_book_2_success [OF c2 [unfolded r2]]
  show ?thesis by simp
qed

text \<open>
  C6, amended. When the first pair of pulls of \<^verbatim>\<open>handle_query\<close> raises
  \<^verbatim>\<open>StopIteration\<close> and the query nevertheless answers, the answer is that of the one
  retry on the application rebuilt by \<^verbatim>\<open>initialize_data_feeds\<close>: both pipelines are
  made anew over the recorded rows, and the initialisation itself has consumed the first
  eleven rows of the first pipeline (one for \<^verbatim>\<open>_sim_start\<close>, ten in
  \<^verbatim>\<open>read_10_first_lines\<close>) and the first ten rows of the second. The first snapshot a
  caller observes after the rebuild therefore belongs to the twelfth recorded row or a
  later one for the first symbol, to the eleventh or a later one for the second.
\<close>

theorem handle_query_rebuild_skips_first_rows:
  assumes "query_pull clock k a = (Inl StopIteration, k1, a1)"
      and "fst (handle_query csv clock k a)
             = Inr (t, (t1, bids1, asks1), (t2, bids2, asks2))"
  shows "data_1 (initialize_data_feeds csv a1) = drop 11 csv
         \<and> data_2 (initialize_data_feeds csv a1) = drop 10 csv
         \<and> fst (query_pull clock k1 (initialize_data_feeds csv a1))
             = Inr ((t1, bids1, asks1), (t2, bids2, asks2))
         \<and> (\<exists>i. 11 \<le> i \<and> i < length csv \<and> t1 = fst (csv ! i))
         \<and> (\<exists>j. 10 \<le> j \<and> j < length csv \<and> t2 = fst (csv ! j))"
proof -
  let ?ai = "initialize_data_feeds csv a1"
  obtain r' k2 a2 where qp2: "query_pull clock k1 ?ai = (r', k2, a2)"
    by (cases "query_pull clock k1 ?ai") auto
  from assms qp2 have r': "r' = Inr ((t1, bids1, asks1), (t2, bids2, asks2))"
    by (auto simp: handle_query_def split: sum.splits prod.splits)
  from query_pull_success [OF qp2 [unfolded r']] obtain i j where
    i: "i < length (data_1 ?ai)" "t1 = fst (data_1 ?ai ! i)" and
    j: "j < length (data_2 ?ai)" "t2 = fst (data_2 ?ai ! j)"
    by auto
  from i(1) j(1) have "data_1 ?ai \<noteq> []" and "data_2 ?ai \<noteq> []" by auto
  with initialize_data_feeds_rows [of csv a1]
  have rows: "data_1 ?ai = drop 11 csv" "data_2 ?ai = drop 10 csv" by auto
  from i rows have "11 \<le> 11 + i \<and> 11 + i < length csv \<and> t1 = fst (csv ! (11 + i))"
    by (simp add: less_diff_conv add.commute)
  moreover from j rows have "10 \<le> 10 + j \<and> 10 + j < length csv \<and> t2 = fst (csv ! (10 + j))"
    by (simp add: less_diff_conv add.commute)
  ultimately show ?thesis using rows qp2 r' by (simp; blast)
qed

text \<open>
  The example run: the state after two queries, in which the first pipeline is exhausted.
\<close>

lemma replayed_app_value:
  "replayed_app =
     \<lparr>book_1 =
        [(''sell'', [(100, 1, 6), (101, 1, 7), (102, 1, 8), (103, 1, 9), (104, 1, 10)]),
         (''buy'', [(99, 1, 9), (98, 1, 10)])],
      book_2 =
        [(''sell'', [(100, 1, 7), (101, 1, 8), (102, 1, 9), (103, 1, 10)]),
         (''buy'', [(99, 1, 9), (98, 1, 10)])],
      data_1 = [], data_2 = [(12000, ''ABC'', ''sell'', 104, 1)],
      rt_start = 0, sim_start = Some 0\<rparr>"
  by (simp add: replayed_app_def run_defs eval_nat_numeral)

lemma replayed_app_exhausted:
  "query_pull (ticking_clock 0) 4 replayed_app = (Inl StopIteration, 4, replayed_app)"
  by (simp add: replayed_app_value query_pull_def current_book_1_def)

lemma replayed_app_query:
  "fst (handle_query recorded_rows (ticking_clock 0) 4 replayed_app) =
     Inr (11000,
      (11000, Some [(99, 1, 9), (99, 1, 7), (98, 1, 10), (98, 1, 8)],
       Some [(100, 1, 7), (100, 1, 2), (101, 1, 8), (101, 1, 3), (102, 1, 9),
             (102, 1, 4), (103, 1, 10), (103, 1, 5), (104, 1, 6)]),
      (10000, Some [(99, 1, 9), (99, 1, 7), (98, 1, 10), (98, 1, 8)],
       Some [(100, 1, 8), (100, 1, 4), (101, 1, 9), (101, 1, 5), (102, 1, 10),
             (102, 1, 6), (103, 1, 7)]))"
  by (simp add: replayed_app_value run_defs eval_nat_numeral)

text \<open>
  C6, as stated. On the thirteen recorded rows, the third query finds the first pipeline
  exhausted, rebuilds and answers with the snapshot of the twelfth row (timestamp 11000)
  for the first symbol and of the eleventh row (timestamp 10000) for the second, not with
  the snapshot of the first recorded row (timestamp 0).
\<close>

theorem handle_query_rebuild_counterexample:
  "fst (query_pull (ticking_clock 0) 4 replayed_app) = Inl StopIteration
   \<and> response_times (fst (handle_query recorded_rows (ticking_clock 0) 4 replayed_app))
       = Inr (11000, 11000, 10000)
   \<and> fst (recorded_rows ! 0) = 0
   \<and> fst (recorded_rows ! 11) = 11000
   \<and> fst (recorded_rows ! 10) = 10000"
proof -
  have "response_times (fst (handle_query recorded_rows (ticking_clock 0) 4 replayed_app))
          = Inr (11000, 11000, 10000)"
    by (simp add: replayed_app_query response_times_def)
  moreover have "fst (recorded_rows ! 0) = 0 \<and> fst (recorded_rows ! 11) = 11000
                 \<and> fst (recorded_rows ! 10) = 10000"
    by (simp add: recorded_rows_def)
  ultimately show ?thesis by (simp add: replayed_app_exhausted)
qed

theorem handle_query_rebuild_skips_first_rows_witness:
  "query_pull (ticking_clock 0) 4 replayed_app = (Inl StopIteration, 4, replayed_app)
   \<and> response_times (fst (handle_query recorded_rows (ticking_clock 0) 4 replayed_app))
       = Inr (11000, 11000, 10000)
   \<and> data_1 (initialize_data_feeds recorded_rows replayed_app) = drop 11 recorded_rows
   \<and> data_2 (initialize_data_feeds recorded_rows replayed_app) = drop 10 recorded_rows
   \<and> (\<exists>i. 11 \<le> i \<and> i < length recorded_rows \<and> (11000::int) = fst (recorded_rows ! i))
   \<and> (\<exists>j. 10 \<le> j \<and> j < length recorded_rows \<and> (10000::int) = fst (recorded_rows ! j))"
proof -
  have "response_times (fst (handle_query recorded_rows (ticking_clock 0) 4 replayed_app))
          = Inr (11000, 11000, 10000)"
    by (simp add: replayed_app_query response_times_def)
  with handle_query_rebuild_skips_first_rows [OF replayed_app_exhausted replayed_app_query]
    replayed_app_exhausted
  show ?thesis by simp
qed

section \<open>Properties of double rounding\<close>

subsection \<open>Rounding to the nearest integer\<close>

lemma round_half_even_of_int [simp]: "round_half_even (of_int n) = n"
  by (simp add: round_half_even_def)

lemma round_half_even_strict:
  "y - of_int \<lfloor>y\<rfloor> < 1 / 2 \<Longrightarrow> round_half_even y = \<lfloor>y\<rfloor>"
  "1 / 2 < y - of_int \<lfloor>y\<rfloor> \<Longrightarrow> round_half_even y = \<lfloor>y\<rfloor> + 1"
  unfolding round_half_even_def Let_def by auto

lemma round_half_even_tie:
  "y - of_int \<lfloor>y\<rfloor> = 1 / 2 \<Longrightarrow>
     round_half_even y = (if even \<lfloor>y\<rfloor> then \<lfloor>y\<rfloor> else \<lfloor>y\<rfloor> + 1)"
  unfolding round_half_even_def Let_def by simp

lemma round_half_even_cases:
  obtains (down) "round_half_even y = \<lfloor>y\<rfloor>" and "y - of_int \<lfloor>y\<rfloor> \<le> 1 / 2"
  | (up) "round_half_even y = \<lfloor>y\<rfloor> + 1" and "1 / 2 \<le> y - of_int \<lfloor>y\<rfloor>"
proof -
  consider "y - of_int \<lfloor>y\<rfloor> < 1 / 2" | "1 / 2 < y - of_int \<lfloor>y\<rfloor>"
    | "y - of_int \<lfloor>y\<rfloor> = 1 / 2" by linarith
  then show thesis
  proof cases
    case 1
    from round_half_even_strict(1) [OF 1] 1 show thesis by (intro down) simp_all
  next
    case 2
    from round_half_even_strict(2) [OF 2] 2 show thesis by (intro up) simp_all
  next
    case 3
    show thesis
    proof (cases "even \<lfloor>y\<rfloor>")
      case True
      with round_half_even_tie [OF 3] 3 show thesis by (intro down) simp_all
    next
      case False
      with round_half_even_tie [OF 3] 3 show thesis by (intro up) simp_all
    qed
  qed
qed

lemma round_half_even_bounds:
  "of_int (round_half_even y) \<le> y + 1 / 2 \<and> y - 1 / 2 \<le> of_int (round_half_even y)"
proof -
  have f: "of_int \<lfloor>y\<rfloor> \<le> y" "y < of_int \<lfloor>y\<rfloor> + 1" by linarith+
  show ?thesis
  proof (cases y rule: round_half_even_cases)
    case down
    with f show ?thesis by linarith
  next
    case up
    with f show ?thesis by (simp only: of_int_add of_int_1) linarith
  qed
qed

lemma round_half_even_range:
  "\<lfloor>y\<rfloor> \<le> round_half_even y \<and> round_half_even y \<le> \<lfloor>y\<rfloor> + 1"
  by (cases y rule: round_half_even_cases) simp_all

lemma round_half_even_mono:
  assumes "y \<le> z"
  shows "round_half_even y \<le> round_half_even z"
proof (cases "\<lfloor>y\<rfloor> = \<lfloor>z\<rfloor>")
  case True
  show ?thesis
  proof (cases "round_half_even y = \<lfloor>y\<rfloor>")
    case True
    with round_half_even_range [of z] \<open>\<lfloor>y\<rfloor> = \<lfloor>z\<rfloor>\<close> show ?thesis by simp
  next
    case False
    then have up: "round_half_even y = \<lfloor>y\<rfloor> + 1" and half: "1 / 2 \<le> y - of_int \<lfloor>y\<rfloor>"
      by (cases y rule: round_half_even_cases; simp)+
    show ?thesis
    proof (cases "y = z")
      case True
      then show ?thesis by simp
    next
      case False
      with assms half True have "1 / 2 < z - of_int \<lfloor>z\<rfloor>" by simp
      from round_half_even_strict(2) [OF this] up True show ?thesis by simp
    qed
  qed
next
  case False
  with assms have "\<lfloor>y\<rfloor> + 1 \<le> \<lfloor>z\<rfloor>"
    using floor_mono [of y z] by linarith
  with round_half_even_range [of y] round_half_even_range [of z]
  show ?thesis by linarith
qed

lemma round_half_even_minus: "round_half_even (- y) = - round_half_even y"
proof (cases "y = of_int \<lfloor>y\<rfloor>")
  case True
  then have "round_half_even (- y) = round_half_even (of_int (- \<lfloor>y\<rfloor>))"
    by simp
  also have "\<dots> = - \<lfloor>y\<rfloor>" by (rule round_half_even_of_int)
  also have "\<dots> = - round_half_even (of_int \<lfloor>y\<rfloor>)" by simp
  finally show ?thesis using True by simp
next
  case False
  have f: "of_int \<lfloor>y\<rfloor> \<le> y" "y < of_int \<lfloor>y\<rfloor> + 1" by linarith+
  with False have lt: "of_int \<lfloor>y\<rfloor> < y" by linarith
  have fl: "\<lfloor>- y\<rfloor> = - \<lfloor>y\<rfloor> - 1"
  proof (rule floor_unique)
    have "of_int (- \<lfloor>y\<rfloor> - 1) = - of_int \<lfloor>y\<rfloor> - (1::real)" by simp
    with f show "of_int (- \<lfloor>y\<rfloor> - 1) \<le> - y" by linarith
    have "of_int (- \<lfloor>y\<rfloor> - 1) + 1 = - of_int \<lfloor>y\<rfloor> + (0::real)" by simp
    with lt show "- y < of_int (- \<lfloor>y\<rfloor> - 1) + 1" by linarith
  qed
  have frac: "- y - of_int \<lfloor>- y\<rfloor> = 1 - (y - of_int \<lfloor>y\<rfloor>)"
    unfolding fl by simp
  consider "y - of_int \<lfloor>y\<rfloor> < 1 / 2" | "1 / 2 < y - of_int \<lfloor>y\<rfloor>"
    | "y - of_int \<lfloor>y\<rfloor> = 1 / 2" by linarith
  then show ?thesis
  proof cases
    case 1
    then have "1 / 2 < - y - of_int \<lfloor>- y\<rfloor>" unfolding frac by linarith
    from round_half_even_strict(2) [OF this] round_half_even_strict(1) [OF 1] fl
    show ?thesis by simp
  next
    case 2
    then have "- y - of_int \<lfloor>- y\<rfloor> < 1 / 2" unfolding frac by linarith
    from round_half_even_strict(1) [OF this] round_half_even_strict(2) [OF 2] fl
    show ?thesis by simp
  next
    case 3
    then have h3: "- y - of_int \<lfloor>- y\<rfloor> = 1 / 2" unfolding frac by linarith
    note a = round_half_even_tie [OF 3]
    note b = round_half_even_tie [OF h3]
    show ?thesis unfolding a b fl by simp
  qed
qed

subsection \<open>Binades\<close>

lemma ulp_pos [simp]: "0 < ulp x"
  by (simp add: ulp_def)

lemma ulp_nonzero [simp]: "ulp x \<noteq> 0"
  using ulp_pos [of x] by linarith

lemma expo_subnormal: "\<bar>x\<bar> < 2 powi (- 1022) \<Longrightarrow> expo x = - 1022"
  by (simp add: expo_def)

lemma round_half_even_zero [simp]: "round_half_even 0 = 0"
  using round_half_even_of_int [of 0] by simp

lemma pow2_less_D: "(2::real) powi a < 2 powi b \<Longrightarrow> a < b"
  using power_int_increasing [of b a "2::real"] by (cases "a < b") auto

lemma pow2_le_D: "(2::real) powi a \<le> 2 powi b \<Longrightarrow> a \<le> b"
  using power_int_strict_increasing [of b a "2::real"] by (cases "a \<le> b") auto

lemma expo_normal:
  assumes "2 powi (- 1022) \<le> \<bar>x\<bar>"
  shows "2 powi (expo x) \<le> \<bar>x\<bar>" and "\<bar>x\<bar> < 2 powi (expo x + 1)"
proof -
  from assms have pos: "0 < \<bar>x\<bar>"
    using zero_less_power_int [of "2::real" "- 1022"] by linarith
  from assms have e: "expo x = \<lfloor>log 2 \<bar>x\<bar>\<rfloor>" by (simp add: expo_def)
  have "2 powr of_int (expo x) \<le> \<bar>x\<bar> \<and> \<bar>x\<bar> < 2 powr of_int (expo x + 1)"
    using floor_log_eq_powr_iff [of "\<bar>x\<bar>" 2 "expo x"] pos e by simp
  then show "2 powi (expo x) \<le> \<bar>x\<bar>" and "\<bar>x\<bar> < 2 powi (expo x + 1)"
    by (simp_all only: powr_real_of_int' [of "2::real", simplified])
qed

lemma expo_ge: "- 1022 \<le> expo x"
proof (cases "\<bar>x\<bar> < 2 powi (- 1022)")
  case True
  then show ?thesis by (simp add: expo_def)
next
  case False
  then have "(2::real) powi (- 1022) < 2 powi (expo x + 1)"
    using expo_normal(2) [of x] by simp
  from pow2_less_D [OF this] show ?thesis by simp
qed

lemma expo_unique:
  assumes "2 powi e \<le> \<bar>x\<bar>" and "\<bar>x\<bar> < 2 powi (e + 1)" and "- 1022 \<le> e"
  shows "expo x = e"
proof -
  have "(2::real) powi (- 1022) \<le> 2 powi e"
    using assms(3) by (intro power_int_increasing) simp_all
  with assms(1) have n: "2 powi (- 1022) \<le> \<bar>x\<bar>" by linarith
  then have pos: "0 < \<bar>x\<bar>"
    using zero_less_power_int [of "2::real" "- 1022"] by linarith
  from n have e: "expo x = \<lfloor>log 2 \<bar>x\<bar>\<rfloor>" by (simp add: expo_def)
  have "2 powr of_int e \<le> \<bar>x\<bar> \<and> \<bar>x\<bar> < 2 powr of_int (e + 1)"
    using assms(1,2) by (simp only: powr_real_of_int' [of "2::real", simplified])
  then have "\<lfloor>log 2 \<bar>x\<bar>\<rfloor> = e"
    using floor_log_eq_powr_iff [of "\<bar>x\<bar>" 2 e] pos by simp
  with e show ?thesis by simp
qed

lemma abs_less_next_binade: "\<bar>x\<bar> < 2 powi (expo x + 1)"
proof (cases "\<bar>x\<bar> < 2 powi (- 1022)")
  case True
  have "(2::real) powi (- 1022) \<le> 2 powi (- 1022 + 1)"
    by (intro power_int_increasing) simp_all
  with True show ?thesis by (simp add: expo_def)
next
  case False
  then show ?thesis using expo_normal(2) [of x] by simp
qed

text \<open>
  Rounding a given number: once its binade is known, \<open>round_double\<close> is a rounding
  to the nearest integer at the spacing of that binade.
\<close>

lemma round_double_eval:
  assumes "2 powi e \<le> \<bar>x\<bar>" and "\<bar>x\<bar> < 2 powi (e + 1)" and "- 1022 \<le> e"
  shows "round_double x = of_int (round_half_even (x / 2 powi (e - 52))) * 2 powi (e - 52)"
  using expo_unique [OF assms] by (simp add: round_double_def ulp_def)

lemma round_double_subnormal:
  assumes "\<bar>x\<bar> < 2 powi (- 1022)"
  shows "round_double x = of_int (round_half_even (x / 2 powi (- 1074))) * 2 powi (- 1074)"
  using expo_subnormal [OF assms] by (simp add: round_double_def ulp_def)

text \<open>
  A number with a significand of at most 53 bits and an exponent in range is a double.
\<close>

lemma round_double_exact:
  assumes x: "x = of_int n * 2 powi k" and n: "\<bar>n\<bar> < 2 ^ 53" and k: "- 1074 \<le> k"
  shows "round_double x = x"
proof (cases "n = 0")
  case True
  with x show ?thesis by (simp add: round_double_def)
next
  case False
  define j where "j = k - (expo x - 52)"
  have "expo x - 52 \<le> k"
  proof (cases "\<bar>x\<bar> < 2 powi (- 1022)")
    case True
    with k show ?thesis by (simp add: expo_def)
  next
    case False
    then have "2 powi (expo x) \<le> \<bar>x\<bar>" using expo_normal(1) [of x] by simp
    also have "\<bar>x\<bar> = of_int \<bar>n\<bar> * 2 powi k"
      by (simp add: x abs_mult)
    also have "\<dots> < 2 ^ 53 * 2 powi k"
    proof (rule mult_strict_right_mono)
      have "(of_int \<bar>n\<bar> :: real) < of_int (2 ^ 53)" using n by (simp only: of_int_less_iff)
      then show "(of_int \<bar>n\<bar> :: real) < 2 ^ 53" by simp
    qed simp
    also have "\<dots> = 2 powi (53 + k)"
      by (simp add: power_int_add)
    finally have "expo x < 53 + k" by (rule pow2_less_D)
    then show ?thesis by simp
  qed
  then have j: "0 \<le> j" by (simp add: j_def)
  have "x / ulp x = of_int n * (2 powi k / 2 powi (expo x - 52))"
    by (simp add: x ulp_def)
  also have "2 powi k / 2 powi (expo x - 52) = (2::real) powi j"
    by (simp add: j_def power_int_diff)
  also have "(2::real) powi j = of_int (2 ^ nat j)"
    using j by (simp add: power_int_def)
  finally have "x / ulp x = of_int (n * 2 ^ nat j)" by simp
  then have "round_half_even (x / ulp x) = n * 2 ^ nat j"
    by (simp only: round_half_even_of_int)
  then have "round_double x = of_int (n * 2 ^ nat j) * ulp x"
    by (simp add: round_double_def)
  also have "\<dots> = x / ulp x * ulp x"
    using \<open>x / ulp x = of_int (n * 2 ^ nat j)\<close> by simp
  also have "\<dots> = x" by simp
  finally show ?thesis .
qed

subsection \<open>Monotonicity\<close>

lemma expo_minus [simp]: "expo (- x) = expo x"
  by (simp add: expo_def)

lemma ulp_minus [simp]: "ulp (- x) = ulp x"
  by (simp add: ulp_def)

lemma round_double_minus: "round_double (- x) = - round_double x"
  by (simp add: round_double_def round_half_even_minus)

lemma round_double_zero [simp]: "round_double 0 = 0"
  by (simp add: round_double_def)

lemma round_double_same_ulp:
  assumes "x \<le> y" and "ulp x = ulp y"
  shows "round_double x \<le> round_double y"
proof -
  have "x / ulp y \<le> y / ulp y"
    using assms(1) ulp_pos [of y] by (intro divide_right_mono) linarith+
  then have "round_half_even (x / ulp y) \<le> round_half_even (y / ulp y)"
    by (rule round_half_even_mono)
  then have "(of_int (round_half_even (x / ulp y)) :: real) \<le> of_int (round_half_even (y / ulp y))"
    by (simp only: of_int_le_iff)
  then show ?thesis
    unfolding round_double_def assms(2) by (simp add: mult_right_mono)
qed

lemma ulp_scale_53: "of_int (2 ^ 53) * ulp x = 2 powi (expo x + 1)"
  using power_int_add [of "2::real" 53 "expo x - 52"] by (simp add: ulp_def add.commute)

lemma ulp_scale_52: "of_int (2 ^ 52) * ulp x = 2 powi (expo x)"
  using power_int_add [of "2::real" 52 "expo x - 52"] by (simp add: ulp_def)

lemma round_double_nonneg:
  assumes "0 \<le> x"
  shows "0 \<le> round_double x"
proof -
  have "0 \<le> x / ulp x" using assms ulp_pos [of x] by (intro divide_nonneg_pos)
  then have "round_half_even 0 \<le> round_half_even (x / ulp x)"
    by (rule round_half_even_mono)
  then have "(0::real) \<le> of_int (round_half_even (x / ulp x))" by simp
  then show ?thesis
    unfolding round_double_def using ulp_pos [of x] by (intro mult_nonneg_nonneg) linarith+
qed

lemma round_double_upper:
  assumes "0 \<le> x"
  shows "round_double x \<le> 2 powi (expo x + 1)"
proof -
  have "x < 2 powi (expo x + 1)"
    using abs_less_next_binade [of x] assms by simp
  then have "x < of_int (2 ^ 53) * ulp x" by (simp only: ulp_scale_53)
  then have "x / ulp x \<le> of_int (2 ^ 53)"
    using ulp_pos [of x] by (simp only: pos_divide_le_eq)
  then have "round_half_even (x / ulp x) \<le> round_half_even (of_int (2 ^ 53))"
    by (rule round_half_even_mono)
  then have "round_half_even (x / ulp x) \<le> 2 ^ 53"
    by (simp only: round_half_even_of_int)
  then have "(of_int (round_half_even (x / ulp x)) :: real) \<le> of_int (2 ^ 53)"
    by (simp only: of_int_le_iff)
  then have "round_double x \<le> of_int (2 ^ 53) * ulp x"
    unfolding round_double_def using ulp_pos [of x] by (intro mult_right_mono) linarith+
  then show ?thesis by (simp only: ulp_scale_53)
qed

lemma round_double_lower:
  assumes "2 powi (- 1022) \<le> x"
  shows "2 powi (expo x) \<le> round_double x"
proof -
  have pos: "0 \<le> x"
    using assms zero_less_power_int [of "2::real" "- 1022"] by linarith
  then have "2 powi (expo x) \<le> x"
    using expo_normal(1) [of x] assms by simp
  then have "of_int (2 ^ 52) * ulp x \<le> x" by (simp only: ulp_scale_52)
  then have "of_int (2 ^ 52) \<le> x / ulp x"
    using ulp_pos [of x] by (simp only: pos_le_divide_eq)
  then have "round_half_even (of_int (2 ^ 52)) \<le> round_half_even (x / ulp x)"
    by (rule round_half_even_mono)
  then have "2 ^ 52 \<le> round_half_even (x / ulp x)"
    by (simp only: round_half_even_of_int)
  then have "(of_int (2 ^ 52) :: real) \<le> of_int (round_half_even (x / ulp x))"
    by (simp only: of_int_le_iff)
  then have "of_int (2 ^ 52) * ulp x \<le> round_double x"
    unfolding round_double_def using ulp_pos [of x] by (intro mult_right_mono) linarith+
  then show ?thesis by (simp only: ulp_scale_52)
qed

lemma expo_mono:
  assumes "0 \<le> x" and "x \<le> y"
  shows "expo x \<le> expo y"
proof (cases "y < 2 powi (- 1022)")
  case True
  with assms show ?thesis by (simp add: expo_def)
next
  case ny: False
  show ?thesis
  proof (cases "x < 2 powi (- 1022)")
    case True
    with assms expo_ge [of y] show ?thesis by (simp add: expo_def)
  next
    case False
    with assms have "2 powi (expo x) \<le> x"
      using expo_normal(1) [of x] by simp
    also note \<open>x \<le> y\<close>
    also have "y < 2 powi (expo y + 1)"
      using abs_less_next_binade [of y] assms by simp
    finally have "expo x < expo y + 1" by (rule pow2_less_D)
    then show ?thesis by simp
  qed
qed

lemma round_double_mono_nonneg:
  assumes "0 \<le> x" and "x \<le> y"
  shows "round_double x \<le> round_double y"
proof (cases "expo x = expo y")
  case True
  then have "ulp x = ulp y" by (simp add: ulp_def)
  with assms(2) show ?thesis by (rule round_double_same_ulp)
next
  case False
  with expo_mono [OF assms] have lt: "expo x < expo y" by simp
  with expo_ge [of x] have "expo y \<noteq> - 1022" by simp
  then have "\<not> \<bar>y\<bar> < 2 powi (- 1022)"
    using expo_subnormal [of y] by blast
  with assms have y: "2 powi (- 1022) \<le> y" by simp
  have "round_double x \<le> 2 powi (expo x + 1)"
    using assms(1) by (rule round_double_upper)
  also have "(2::real) powi (expo x + 1) \<le> 2 powi (expo y)"
    using lt by (intro power_int_increasing) simp_all
  also have "\<dots> \<le> round_double y"
    using y by (rule round_double_lower)
  finally show ?thesis .
qed

lemma round_double_mono:
  assumes "x \<le> y"
  shows "round_double x \<le> round_double y"
proof (cases "0 \<le> x")
  case True
  then show ?thesis using assms by (rule round_double_mono_nonneg)
next
  case nx: False
  show ?thesis
  proof (cases "0 \<le> y")
    case True
    from nx have "0 \<le> - x" by simp
    then have "0 \<le> round_double (- x)" by (rule round_double_nonneg)
    then have "round_double x \<le> 0" by (simp add: round_double_minus)
    also have "0 \<le> round_double y" using True by (rule round_double_nonneg)
    finally show ?thesis .
  next
    case False
    then have "0 \<le> - y" and "- y \<le> - x" using assms by simp_all
    then have "round_double (- y) \<le> round_double (- x)"
      by (rule round_double_mono_nonneg)
    then show ?thesis by (simp add: round_double_minus)
  qed
qed

subsection \<open>The doubles\<close>

lemma round_double_mantissa:
  "\<bar>round_half_even (x / ulp x)\<bar> \<le> 2 ^ 53"
proof -
  have "\<bar>x\<bar> < of_int (2 ^ 53) * ulp x"
    using abs_less_next_binade [of x] by (simp only: ulp_scale_53)
  then have "- (of_int (2 ^ 53) * ulp x) \<le> x" and "x \<le> of_int (2 ^ 53) * ulp x"
    by linarith+
  then have lo: "of_int (- (2 ^ 53)) \<le> x / ulp x" and hi: "x / ulp x \<le> of_int (2 ^ 53)"
    using ulp_pos [of x] by (simp_all add: pos_le_divide_eq pos_divide_le_eq)
  note round_half_even_mono [OF lo] round_half_even_mono [OF hi]
  then have "- (2 ^ 53) \<le> round_half_even (x / ulp x)"
    and "round_half_even (x / ulp x) \<le> 2 ^ 53"
    by (simp_all only: round_half_even_of_int)
  then show ?thesis by linarith
qed

lemma round_double_repr:
  "\<exists>n k. round_double x = of_int n * 2 powi k \<and> \<bar>n\<bar> < 2 ^ 53 \<and> - 1074 \<le> k"
proof -
  define n where "n = round_half_even (x / ulp x)"
  have r: "round_double x = of_int n * 2 powi (expo x - 52)"
    by (simp add: round_double_def n_def ulp_def)
  have k: "- 1074 \<le> expo x - 52" using expo_ge [of x] by simp
  from round_double_mantissa [of x] have n: "\<bar>n\<bar> \<le> 2 ^ 53" by (simp add: n_def)
  show ?thesis
  proof (cases "\<bar>n\<bar> < 2 ^ 53")
    case True
    with r k show ?thesis by blast
  next
    case False
    with n have "n = 2 ^ 53 \<or> n = - (2 ^ 53)" by linarith
    then have "of_int n = of_int (n div 2 ^ 53) * (2::real) powi 53" and "\<bar>n div 2 ^ 53\<bar> < 2 ^ 53"
      by auto
    then have "round_double x = of_int (n div 2 ^ 53) * (2 powi 53 * 2 powi (expo x - 52))"
      using r by (simp only: mult.assoc)
    also have "(2::real) powi 53 * 2 powi (expo x - 52) = 2 powi (expo x + 1)"
      using ulp_scale_53 [of x] by (simp add: ulp_def)
    finally have "round_double x = of_int (n div 2 ^ 53) * 2 powi (expo x + 1)" .
    moreover have "- 1074 \<le> expo x + 1" using k by simp
    ultimately show ?thesis using \<open>\<bar>n div 2 ^ 53\<bar> < 2 ^ 53\<close> by blast
  qed
qed

lemma is_double_repr:
  "is_double x \<longleftrightarrow> (\<exists>n k. x = of_int n * 2 powi k \<and> \<bar>n\<bar> < 2 ^ 53 \<and> - 1074 \<le> k)"
proof
  assume "is_double x"
  then show "\<exists>n k. x = of_int n * 2 powi k \<and> \<bar>n\<bar> < 2 ^ 53 \<and> - 1074 \<le> k"
    using round_double_repr [of x] by (simp add: is_double_def)
next
  assume "\<exists>n k. x = of_int n * 2 powi k \<and> \<bar>n\<bar> < 2 ^ 53 \<and> - 1074 \<le> k"
  then show "is_double x"
    unfolding is_double_def using round_double_exact by blast
qed

lemma is_double_round [simp]: "is_double (round_double x)"
  using round_double_repr [of x] by (simp only: is_double_repr)

lemma round_double_idem [simp]: "round_double (round_double x) = round_double x"
  using is_double_round [of x] by (simp only: is_double_def)

lemma is_double_zero [simp]: "is_double 0"
  by (simp add: is_double_def)

lemma is_double_minus: "is_double x \<Longrightarrow> is_double (- x)"
  by (simp add: is_double_def round_double_minus)

lemma is_double_abs: "is_double x \<Longrightarrow> is_double \<bar>x\<bar>"
  by (cases "0 \<le> x") (simp_all add: is_double_minus abs_if)

lemma is_double_twice:
  assumes "is_double x"
  shows "is_double (x * 2)"
proof -
  from assms obtain n k where x: "x = of_int n * 2 powi k" and n: "\<bar>n\<bar> < 2 ^ 53"
    and k: "- 1074 \<le> k"
    unfolding is_double_repr by blast
  have "x * 2 = of_int n * (2 powi k * 2 powi 1)" by (simp add: x)
  also have "(2::real) powi k * 2 powi 1 = 2 powi (k + 1)"
    by (simp add: power_int_add)
  finally have "x * 2 = of_int n * 2 powi (k + 1)" .
  moreover have "- 1074 \<le> k + 1" using k by simp
  ultimately show ?thesis unfolding is_double_repr using n by blast
qed

lemma is_double_of_int:
  assumes "\<bar>n\<bar> < 2 ^ 53"
  shows "is_double (of_int n)"
proof -
  have "(of_int n :: real) = of_int n * 2 powi 0" by simp
  then show ?thesis unfolding is_double_repr using assms by fastforce
qed

text \<open>A double is an integer multiple of the smallest subnormal.\<close>

lemma is_double_quantum:
  assumes "is_double x"
  shows "\<exists>m::int. x = of_int m * 2 powi (- 1074)"
proof -
  from assms obtain n k where x: "x = of_int n * 2 powi k" and k: "- 1074 \<le> k"
    unfolding is_double_repr by blast
  have "(2::real) powi k = 2 powi (k + 1074) * 2 powi (- 1074)"
    using power_int_add [of "2::real" "k + 1074" "- 1074"] by simp
  also have "(2::real) powi (k + 1074) = of_int (2 ^ nat (k + 1074))"
    using k by (simp add: power_int_def)
  finally have "x = of_int (n * 2 ^ nat (k + 1074)) * 2 powi (- 1074)"
    by (simp add: x)
  then show ?thesis by blast
qed

lemma round_double_diff_pos:
  assumes "is_double a" and "is_double b" and "a < b"
  shows "0 < round_double (b - a)"
proof -
  from is_double_quantum [OF assms(1)] is_double_quantum [OF assms(2)]
  obtain m n :: int where a: "a = of_int m * 2 powi (- 1074)" and b: "b = of_int n * 2 powi (- 1074)"
    by blast
  have q: "(0::real) < 2 powi (- 1074)" by simp
  from assms(3) have "of_int m * 2 powi (- 1074) < of_int n * (2::real) powi (- 1074)"
    by (simp only: a b)
  then have "(of_int m :: real) < of_int n"
    using q by (simp only: mult_less_cancel_right_pos)
  then have "m + 1 \<le> n" by simp
  then have "(of_int (m + 1) :: real) \<le> of_int n" by (simp only: of_int_le_iff)
  then have "of_int (m + 1) * 2 powi (- 1074) \<le> of_int n * (2::real) powi (- 1074)"
    using q by (intro mult_right_mono) linarith+
  then have "2 powi (- 1074) \<le> b - a"
    by (simp add: a b algebra_simps)
  then have "round_double (2 powi (- 1074)) \<le> round_double (b - a)"
    by (rule round_double_mono)
  moreover have "round_double (2 powi (- 1074)) = 2 powi (- 1074)"
    by (rule round_double_exact [of _ 1 "- 1074"]) simp_all
  ultimately show ?thesis using q by linarith
qed

lemma round_double_value:
  assumes "2 powi e \<le> \<bar>x\<bar>" and "\<bar>x\<bar> < 2 powi (e + 1)" and "- 1022 \<le> e"
    and "round_half_even (x / 2 powi (e - 52)) = n"
  shows "round_double x = of_int n * 2 powi (e - 52)"
  using round_double_eval [OF assms(1-3)] assms(4) by simp

section \<open>Properties of the generators\<close>

lemma fl_SomeD:
  "fl x = Some r \<Longrightarrow> r = round_double x \<and> \<bar>r\<bar> < 2 powi 1024"
  by (auto simp: fl_def Let_def split: if_splits)

lemma fl_exact:
  assumes "x = of_int n * 2 powi k" and "\<bar>n\<bar> < 2 ^ 53" and "- 1074 \<le> k"
    and "\<bar>x\<bar> < 2 powi 1024"
  shows "fl x = Some x"
  using round_double_exact [OF assms(1-3)] assms(4) by (simp add: fl_def)

lemma fl_of_int:
  assumes "\<bar>n\<bar> < 2 ^ 53"
  shows "fl (of_int n) = Some (of_int n)" and "fl (of_int n / 2) = Some (of_int n / 2)"
proof -
  have "(of_int \<bar>n\<bar> :: real) < of_int (2 ^ 53)"
    using assms by (simp only: of_int_less_iff)
  then have r: "\<bar>of_int n :: real\<bar> < 2 powi 53" by simp
  have "(2::real) powi 53 \<le> 2 powi 1024"
    by (intro power_int_increasing) simp_all
  with r have big: "\<bar>of_int n :: real\<bar> < 2 powi 1024" by linarith
  show "fl (of_int n) = Some (of_int n)"
    by (rule fl_exact [where n = n and k = 0]) (use assms big in simp_all)
  have "\<bar>of_int n / 2 :: real\<bar> \<le> \<bar>of_int n\<bar>" by simp
  with big have big2: "\<bar>of_int n / 2 :: real\<bar> < 2 powi 1024" by linarith
  show "fl (of_int n / 2) = Some (of_int n / 2)"
    by (rule fl_exact [where n = n and k = "- 1"]) (use assms big2 in simp_all)
qed

text \<open>
  A result bounded in magnitude by a power of two below \<open>2 powi 1024\<close> stays finite.
\<close>

lemma pow2_is_double:
  assumes "- 1074 \<le> k"
  shows "round_double (2 powi k) = 2 powi k"
  by (rule round_double_exact [where n = 1 and k = k]) (use assms in simp_all)

lemma round_double_abs_le:
  assumes "\<bar>x\<bar> \<le> 2 powi k" and "- 1074 \<le> k"
  shows "\<bar>round_double x\<bar> \<le> 2 powi k"
proof -
  from assms(1) have hi: "x \<le> 2 powi k" and lo: "- (2 powi k) \<le> x" by linarith+
  note round_double_mono [OF hi] round_double_mono [OF lo]
  then show ?thesis
    by (simp add: round_double_minus pow2_is_double [OF assms(2)] abs_le_iff)
qed

lemma fl_bounded:
  assumes "\<bar>x\<bar> \<le> 2 powi k" and "- 1074 \<le> k" and "k < 1024"
  shows "fl x = Some (round_double x)"
proof -
  have "\<bar>round_double x\<bar> \<le> 2 powi k"
    using assms(1,2) by (rule round_double_abs_le)
  also have "(2::real) powi k < 2 powi 1024"
    using assms(3) by (intro power_int_strict_increasing) simp_all
  finally show ?thesis by (simp add: fl_def)
qed

text \<open>
  The remainder of \<^verbatim>\<open>fmod\<close> has the sign of the dividend and is smaller in magnitude
  than the divisor; for a positive divisor Python's remainder lies between 0 and the
  divisor, which it can reach by the rounding of its last addition.
\<close>

lemma fmod_range:
  assumes "0 < y"
  shows "0 \<le> x \<Longrightarrow> 0 \<le> x - y * of_int (py_int (x / y)) \<and> x - y * of_int (py_int (x / y)) < y"
    and "x < 0 \<Longrightarrow> - y < x - y * of_int (py_int (x / y)) \<and> x - y * of_int (py_int (x / y)) \<le> 0"
proof -
  assume x: "0 \<le> x"
  then have q: "0 \<le> x / y" using assms by simp
  then have t: "py_int (x / y) = \<lfloor>x / y\<rfloor>" by (simp add: py_int_def)
  have "of_int \<lfloor>x / y\<rfloor> \<le> x / y" by simp
  then have lo: "of_int \<lfloor>x / y\<rfloor> * y \<le> x"
    using assms by (simp only: pos_le_divide_eq)
  have "x / y < of_int \<lfloor>x / y\<rfloor> + 1" by linarith
  then have "x < (of_int \<lfloor>x / y\<rfloor> + 1) * y"
    using assms by (simp only: pos_divide_less_eq)
  then have hi: "x < of_int \<lfloor>x / y\<rfloor> * y + y" by (simp add: algebra_simps)
  from lo hi show "0 \<le> x - y * of_int (py_int (x / y)) \<and> x - y * of_int (py_int (x / y)) < y"
    unfolding t by (simp add: mult.commute)
next
  assume x: "x < 0"
  then have q: "x / y < 0" using assms by (simp add: divide_neg_pos)
  then have t: "py_int (x / y) = \<lceil>x / y\<rceil>" by (simp add: py_int_def)
  have "x / y \<le> of_int \<lceil>x / y\<rceil>" by simp
  then have hi: "x \<le> of_int \<lceil>x / y\<rceil> * y"
    using assms by (simp only: pos_divide_le_eq)
  have "of_int \<lceil>x / y\<rceil> - 1 < x / y" by linarith
  then have "(of_int \<lceil>x / y\<rceil> - 1) * y < x"
    using assms by (simp only: pos_less_divide_eq)
  then have lo: "of_int \<lceil>x / y\<rceil> * y - y < x" by (simp add: algebra_simps)
  from lo hi show "- y < x - y * of_int (py_int (x / y)) \<and> x - y * of_int (py_int (x / y)) \<le> 0"
    unfolding t by (simp add: mult.commute)
qed

lemma py_mod_range:
  assumes y: "0 < y" and d: "is_double y" and m: "py_mod x y = Some m"
  shows "0 \<le> m \<and> m \<le> y"
proof (cases "0 \<le> x")
  case True
  from fmod_range(1) [OF y True] m y show ?thesis
    by (auto simp: py_mod_def Let_def split: if_splits)
next
  case False
  then have x: "x < 0" by simp
  define m0 where "m0 = x - y * of_int (py_int (x / y))"
  from fmod_range(2) [OF y x] have m0: "- y < m0" "m0 \<le> 0" by (simp_all add: m0_def)
  show ?thesis
  proof (cases "m0 = 0")
    case True
    with m y show ?thesis by (simp add: py_mod_def m0_def [symmetric])
  next
    case False
    with m0 m y have "fl (m0 + y) = Some m"
      by (simp add: py_mod_def m0_def [symmetric])
    then have r: "m = round_double (m0 + y)" using fl_SomeD by blast
    have "round_double 0 \<le> round_double (m0 + y)"
      using m0 by (intro round_double_mono) linarith
    moreover have "round_double (m0 + y) \<le> round_double y"
      using m0 by (intro round_double_mono) linarith
    ultimately show ?thesis
      using d by (simp add: r is_double_def)
  qed
qed

text \<open>
  The value yielded in a turn: rounding is monotone and leaves doubles unchanged, so
  the bounds of the exact walk carry over, with the upper bound \<open>rng + min\<close> rounded.
\<close>

lemma bwalk_emit_bounds:
  assumes rng: "0 < rng" and drng: "is_double rng" and dmn: "is_double mn"
    and v: "bwalk_emit mn rng acc = Inr v"
  shows "mn \<le> v \<and> v \<le> round_double (rng + mn)"
proof -
  from v obtain rng2 m d where
    rng2: "fl (rng * 2) = Some rng2" and m: "py_mod acc rng2 = Some m"
    and d: "fl (m - rng) = Some d" and v': "fl (\<bar>d\<bar> + mn) = Some v"
    by (auto simp: bwalk_emit_def split: option.splits if_splits)
  have r2: "rng2 = rng * 2"
    using fl_SomeD [OF rng2] is_double_twice [OF drng] by (simp add: is_double_def)
  then have "0 < rng2" and "is_double rng2"
    using rng is_double_twice [OF drng] by simp_all
  from py_mod_range [OF this m] have mr: "0 \<le> m" "m \<le> rng * 2" by (simp_all add: r2)
  have dd: "d = round_double (m - rng)" using fl_SomeD [OF d] by simp
  have "round_double (- rng) \<le> round_double (m - rng)"
    using mr by (intro round_double_mono) linarith
  moreover have "round_double (m - rng) \<le> round_double rng"
    using mr by (intro round_double_mono) linarith
  ultimately have "- rng \<le> d" and "d \<le> rng"
    using drng by (simp_all add: dd round_double_minus is_double_def)
  then have a: "0 \<le> \<bar>d\<bar>" "\<bar>d\<bar> \<le> rng" by simp_all
  have vv: "v = round_double (\<bar>d\<bar> + mn)" using fl_SomeD [OF v'] by simp
  have "round_double mn \<le> round_double (\<bar>d\<bar> + mn)"
    using a by (intro round_double_mono) linarith
  moreover have "round_double (\<bar>d\<bar> + mn) \<le> round_double (rng + mn)"
    using a by (intro round_double_mono) linarith
  ultimately show ?thesis
    using dmn by (simp add: vv is_double_def)
qed

lemma bwalk_emit_not_raised:
  assumes rng: "0 < rng" and drng: "is_double rng"
  shows "bwalk_emit mn rng acc \<noteq> Inl (Raised e)"
proof -
  have "fl (rng * 2) = Some rng2 \<Longrightarrow> rng2 \<noteq> 0" for rng2
    using fl_SomeD [of "rng * 2" rng2] is_double_twice [OF drng] rng
    by (simp add: is_double_def)
  then show ?thesis
    by (auto simp: bwalk_emit_def split: option.splits)
qed

text \<open>
  With parameters of moderate magnitude the expression yielded is always finite: a run
  of \<^verbatim>\<open>bwalk\<close> can leave the finite doubles only through its accumulator.
\<close>

lemma bwalk_emit_total:
  assumes rng: "0 < rng" and drng: "is_double rng" and dmn: "is_double mn"
    and brng: "rng \<le> 2 powi 1000" and bmn: "\<bar>mn\<bar> \<le> 2 powi 1000"
  shows "\<exists>v. bwalk_emit mn rng acc = Inr v"
proof -
  have p1001: "(2::real) powi 1001 = 2 * 2 powi 1000"
    using power_int_add [of "2::real" 1 1000] by simp
  have "\<bar>rng * 2\<bar> \<le> 2 powi 1001" using rng brng unfolding p1001 by simp
  then have "fl (rng * 2) = Some (round_double (rng * 2))"
    by (rule fl_bounded) simp_all
  moreover have "round_double (rng * 2) = rng * 2"
    using is_double_twice [OF drng] by (simp add: is_double_def)
  ultimately have rng2: "fl (rng * 2) = Some (rng * 2)" by simp
  have pos2: "0 < rng * 2" and d2: "is_double (rng * 2)"
    using rng is_double_twice [OF drng] by simp_all
  define m0 where "m0 = acc - rng * 2 * of_int (py_int (acc / (rng * 2)))"
  have "\<exists>m. py_mod acc (rng * 2) = Some m"
  proof (cases "m0 \<noteq> 0 \<and> m0 < 0")
    case True
    then have "acc < 0"
      using fmod_range(1) [OF pos2, of acc] by (cases "0 \<le> acc") (simp_all add: m0_def)
    from fmod_range(2) [OF pos2 this] have "- (rng * 2) < m0" "m0 \<le> 0"
      by (simp_all add: m0_def)
    then have "\<bar>m0 + rng * 2\<bar> \<le> 2 powi 1001"
      using rng brng unfolding p1001 by simp
    then have "fl (m0 + rng * 2) = Some (round_double (m0 + rng * 2))"
      by (rule fl_bounded) simp_all
    with True pos2 show ?thesis
      by (simp add: py_mod_def m0_def [symmetric])
  next
    case False
    with pos2 show ?thesis
      by (auto simp: py_mod_def m0_def [symmetric])
  qed
  then obtain m where m: "py_mod acc (rng * 2) = Some m" by blast
  from py_mod_range [OF pos2 d2 m] have mr: "0 \<le> m" "m \<le> rng * 2" by simp_all
  then have "\<bar>m - rng\<bar> \<le> 2 powi 1000" using brng by simp
  then have d: "fl (m - rng) = Some (round_double (m - rng))"
    by (rule fl_bounded) simp_all
  have "\<bar>m - rng\<bar> \<le> 2 powi 1000" using mr brng by simp
  then have "\<bar>round_double (m - rng)\<bar> \<le> 2 powi 1000"
    by (rule round_double_abs_le) simp
  then have "\<bar>\<bar>round_double (m - rng)\<bar> + mn\<bar> \<le> 2 powi 1001"
    using bmn unfolding p1001 by simp
  then have v: "fl (\<bar>round_double (m - rng)\<bar> + mn)
                  = Some (round_double (\<bar>round_double (m - rng)\<bar> + mn))"
    by (rule fl_bounded) simp_all
  from rng2 m d v rng show ?thesis
    by (simp add: bwalk_emit_def)
qed

lemma bwalk_loop_bounds:
  assumes rng: "0 < rng" and drng: "is_double rng" and dmn: "is_double mn"
  shows "bwalk_loop mn rng acc draws = (vs, h) \<Longrightarrow>
           (\<forall>v \<in> set vs. mn \<le> v \<and> v \<le> round_double (rng + mn))
           \<and> (h = None \<or> h = Some NonFinite)
           \<and> (h = None \<longrightarrow> length vs = length draws)"
proof (induction draws arbitrary: acc vs h)
  case Nil
  then show ?case by simp
next
  case (Cons d draws)
  show ?case
  proof (cases "fl (acc + d)")
    case None
    with Cons.prems show ?thesis by auto
  next
    case (Some acc')
    show ?thesis
    proof (cases "bwalk_emit mn rng acc'")
      case (Inl hh)
      with bwalk_emit_not_raised [OF rng drng, of mn acc'] have "hh = NonFinite"
        by (cases hh) auto
      with Inl Some Cons.prems show ?thesis by auto
    next
      case (Inr v)
      obtain vs' h' where rest: "bwalk_loop mn rng acc' draws = (vs', h')"
        by (cases "bwalk_loop mn rng acc' draws")
      with Some Inr Cons.prems have eq: "vs = v # vs'" "h = h'" by simp_all
      from Cons.IH [OF rest] bwalk_emit_bounds [OF rng drng dmn Inr] eq
      show ?thesis by simp
    qed
  qed
qed

text \<open>
  C7, amended. For every parameterisation of doubles with \<open>min < max\<close> and every
  sequence of injected perturbations, \<^verbatim>\<open>bwalk\<close> raises nothing, and every value it emits
  while its arithmetic stays within the finite doubles lies within
  \<open>[min, fl (rng + min)]\<close>, where \<open>rng = fl (max - min)\<close> is the range as the code computes
  it and \<open>fl\<close> is rounding to the nearest double. That upper bound is \<open>max\<close> whenever
  \<open>max - min\<close> is a double, as it is for the three parameterisations of the program
  (12 and 36, 60 and 150, 2 and 6); otherwise it can lie above \<open>max\<close>. As long as the run
  stays finite it yields one value per perturbation.
\<close>

theorem bwalk_bounded:
  assumes "is_double mn" and "is_double mx" and "mn < mx"
    and "bwalk mn mx std draws = (vs, h)"
  shows "(\<forall>v \<in> set vs. mn \<le> v \<and> v \<le> round_double (round_double (mx - mn) + mn))
         \<and> (round_double (mx - mn) = mx - mn \<longrightarrow> (\<forall>v \<in> set vs. v \<le> mx))
         \<and> (h = None \<or> h = Some NonFinite)
         \<and> (h = None \<longrightarrow> length vs = length draws)"
proof (cases "fl (mx - mn)")
  case None
  with assms(4) show ?thesis by (auto simp: bwalk_def)
next
  case (Some rng)
  then have r: "rng = round_double (mx - mn)" using fl_SomeD by blast
  have pos: "0 < rng" unfolding r using assms(1-3) by (rule round_double_diff_pos)
  have drng: "is_double rng" by (simp add: r)
  from Some assms(4) have "bwalk_loop mn rng mx draws = (vs, h)" by (simp add: bwalk_def)
  from bwalk_loop_bounds [OF pos drng assms(1) this]
  have main: "(\<forall>v \<in> set vs. mn \<le> v \<and> v \<le> round_double (rng + mn))"
    "h = None \<or> h = Some NonFinite" "h = None \<longrightarrow> length vs = length draws"
    by simp_all
  have "round_double (mx - mn) = mx - mn \<longrightarrow> round_double (rng + mn) = mx"
    using assms(2) by (simp add: r is_double_def)
  with main show ?thesis by (auto simp: r)
qed

text \<open>
  The value of \<open>fl\<close> at a given number, from its binade.
\<close>

lemma fl_value:
  assumes "2 powi e \<le> \<bar>x\<bar>" and "\<bar>x\<bar> < 2 powi (e + 1)" and "- 1022 \<le> e"
    and "round_half_even (x / 2 powi (e - 52)) = n"
    and "\<bar>of_int n * 2 powi (e - 52) :: real\<bar> < 2 powi 1024"
  shows "fl x = Some (of_int n * 2 powi (e - 52))"
  using round_double_value [OF assms(1-4)] assms(5) by (simp add: fl_def)

text \<open>
  C7, as stated. For \<open>min = 0.3\<close>, \<open>max = 0.9\<close> (the doubles nearest to these decimals)
  and the perturbation \<open>-0.9\<close>, the code computes \<open>rng = 0.6000000000000001\<close>, the
  accumulator becomes 0, and the value emitted is \<open>0.9000000000000001\<close>, the double next
  above \<open>max\<close>.
\<close>

theorem bwalk_bounded_counterexample:
  "round_double (3 / 10) = 5404319552844595 / 2 ^ 54
   \<and> round_double (9 / 10) = 8106479329266893 / 2 ^ 53
   \<and> bwalk (5404319552844595 / 2 ^ 54) (8106479329266893 / 2 ^ 53) 1
        [- (8106479329266893 / 2 ^ 53)]
       = ([8106479329266894 / 2 ^ 53], None)
   \<and> (8106479329266893 / 2 ^ 53 :: real) < 8106479329266894 / 2 ^ 53"
proof -
  define A :: real where "A = 5404319552844595 / 2 ^ 54"
  define B :: real where "B = 8106479329266893 / 2 ^ 53"
  define R :: real where "R = 5404319552844596 / 2 ^ 53"
  define R2 :: real where "R2 = 5404319552844596 / 2 ^ 52"
  define V :: real where "V = 8106479329266894 / 2 ^ 53"
  have a: "round_double (3 / 10) = A"
    unfolding A_def
    by (rule round_double_value [where e = "- 2" and n = 5404319552844595, THEN trans])
      (simp_all add: round_half_even_def)
  have b: "round_double (9 / 10) = B"
    unfolding B_def
    by (rule round_double_value [where e = "- 1" and n = 8106479329266893, THEN trans])
      (simp_all add: round_half_even_def)
  have rng: "fl (B - A) = Some R"
    unfolding A_def B_def R_def
    by (rule fl_value [where e = "- 1" and n = 5404319552844596, THEN trans])
      (simp_all add: round_half_even_def)
  have acc: "fl (B + - B) = Some 0"
    by (simp add: fl_def)
  have rng2: "fl (R * 2) = Some R2"
    unfolding R_def R2_def
    by (rule fl_exact [where n = 5404319552844596 and k = "- 52", THEN trans]) simp_all
  have md: "py_mod 0 R2 = Some 0"
    by (simp add: py_mod_def py_int_def)
  have d: "fl (0 - R) = Some (- R)"
    unfolding R_def
    by (rule fl_exact [where n = "- 5404319552844596" and k = "- 53", THEN trans]) simp_all
  have v: "fl (\<bar>- R\<bar> + A) = Some V"
    unfolding A_def R_def V_def
    by (rule fl_value [where e = "- 1" and n = 8106479329266894, THEN trans])
      (simp_all add: round_half_even_def)
  have nz: "R2 \<noteq> 0" by (simp add: R2_def)
  have emit: "bwalk_emit A R 0 = Inr V"
    by (simp only: bwalk_emit_def rng2 md d v nz option.case if_False)
  have "bwalk A B 1 [- B] = ([V], None)"
    by (simp only: bwalk_def rng acc emit bwalk_loop.simps option.case sum.case prod.case)
  moreover have "B < V" by (simp add: B_def V_def)
  ultimately show ?thesis
    using a b unfolding A_def B_def V_def by simp
qed

theorem bwalk_bounded_witness:
  "is_double 60 \<and> is_double 150 \<and> (60::real) < 150
   \<and> bwalk 60 150 1 [1, - 200, 1 / 2] = ([121, 101, 203 / 2], None)
   \<and> round_double (150 - 60) = 150 - 60
   \<and> round_double (36 - 12) = 36 - 12
   \<and> round_double (6 - 2) = 6 - 2
   \<and> (60::real) \<le> 121 \<and> (121::real) \<le> 150 \<and> (60::real) \<le> 101 \<and> (101::real) \<le> 150
   \<and> (60::real) \<le> 203 / 2 \<and> (203 / 2 :: real) \<le> 150"
proof -
  note vals = fl_of_int(1) [of 90, simplified] fl_of_int(1) [of 151, simplified]
    fl_of_int(1) [of 180, simplified] fl_of_int(1) [of 61, simplified]
    fl_of_int(1) [of 121, simplified] fl_of_int(1) [of "- 49", simplified]
    fl_of_int(1) [of 131, simplified] fl_of_int(1) [of 41, simplified]
    fl_of_int(1) [of 101, simplified] fl_of_int(2) [of "- 97", simplified]
    fl_of_int(2) [of 263, simplified] fl_of_int(2) [of 83, simplified]
    fl_of_int(2) [of 203, simplified]
  have d60: "is_double 60" and d150: "is_double 150"
    using is_double_of_int [of 60] is_double_of_int [of 150] by simp_all
  have lt: "(60::real) < 150" by simp
  have run: "bwalk 60 150 1 [1, - 200, 1 / 2] = ([121, 101, 203 / 2], None)"
    by (simp add: bwalk_def bwalk_emit_def py_mod_def py_int_def vals)
  have exact: "round_double (150 - 60) = 150 - 60" "round_double (36 - 12) = 36 - 12"
    "round_double (6 - 2) = 6 - 2"
    using round_double_exact [of 90 90 0] round_double_exact [of 24 24 0]
      round_double_exact [of 4 4 0] by simp_all
  from bwalk_bounded [OF d60 d150 lt run] run d60 d150 exact show ?thesis by simp
qed

text \<open>
  With the mean 0 the addition in \<^verbatim>\<open>normalvariate\<close> changes nothing.
\<close>

lemma normalvariate_zero_mean:
  "normalvariate 0 sigma z = fl (z * sigma)"
proof (cases "fl (z * sigma)")
  case None
  then show ?thesis by (simp add: normalvariate_def)
next
  case (Some p)
  from fl_SomeD [OF this] have e: "p = round_double (z * sigma)"
    and b: "\<bar>p\<bar> < 2 powi 1024" by blast+
  have "round_double p = round_double (round_double (z * sigma))" by (simp only: e)
  also have "\<dots> = p" by (simp only: round_double_idem e)
  finally have "fl (0 + p) = Some p" using b by (simp add: fl_def)
  with Some show ?thesis by (simp add: normalvariate_def)
qed

text \<open>
  For ticks and variates of moderate magnitude every operation of a turn of
  \<^verbatim>\<open>orders\<close> stays finite, and the turn yields an order.
\<close>

lemma round_half_even_abs_le: "\<bar>of_int (round_half_even y) :: real\<bar> \<le> \<bar>y\<bar> + 1 / 2"
  using round_half_even_bounds [of y] by linarith

lemma orders_step_total:
  assumes "\<bar>px\<bar> \<le> 2 powi 100" and "\<bar>spd\<bar> \<le> 2 powi 100"
    and "\<bar>z1\<bar> \<le> 2 powi 100" and "\<bar>z2\<bar> \<le> 2 powi 100"
  shows "\<exists>r. orders_step (t, px, spd) (u1, u2, z1, z2) = Some r"
proof -
  define d :: real where "d = snd (if u2 > 0.5 then (''sell'', 2) else (''buy'', - 2))"
  have dd: "\<bar>d\<bar> = 2" by (simp add: d_def)
  define half where "half = round_double (spd / d)"
  define mu where "mu = round_double (px + half)"
  define sigma where "sigma = round_double (spd / 4)"
  define p where "p = round_double (z1 * sigma)"
  define x where "x = round_double (mu + p)"
  define q where "q = round_double (z2 * 100)"
  have p101: "(2::real) powi 101 = 2 * 2 powi 100"
    using power_int_add [of "2::real" 1 100] by simp
  have p200: "(2::real) powi 200 = 2 powi 100 * 2 powi 100"
    using power_int_add [of "2::real" 100 100] by simp
  have p201: "(2::real) powi 201 = 2 * 2 powi 200"
    using power_int_add [of "2::real" 1 200] by simp
  have p202: "(2::real) powi 202 = 2 * 2 powi 201"
    using power_int_add [of "2::real" 1 201] by simp
  have p107: "(2::real) powi 107 = 128 * 2 powi 100"
    using power_int_add [of "2::real" 7 100] by simp
  have one: "(1::real) \<le> 2 powi 201"
    using power_int_increasing [of 0 201 "2::real"] by simp
  have b1: "\<bar>spd / d\<bar> \<le> 2 powi 100" using assms(2) dd by (simp add: abs_divide)
  then have e1: "fl (spd / d) = Some half" unfolding half_def by (rule fl_bounded) simp_all
  have bh: "\<bar>half\<bar> \<le> 2 powi 100" unfolding half_def using b1 by (rule round_double_abs_le) simp
  have b2: "\<bar>px + half\<bar> \<le> 2 powi 101" using assms(1) bh unfolding p101 by linarith
  then have e2: "fl (px + half) = Some mu" unfolding mu_def by (rule fl_bounded) simp_all
  have bmu: "\<bar>mu\<bar> \<le> 2 powi 101" unfolding mu_def using b2 by (rule round_double_abs_le) simp
  have b3: "\<bar>spd / 4\<bar> \<le> 2 powi 100" using assms(2) by simp
  then have e3: "fl (spd / 4) = Some sigma" unfolding sigma_def by (rule fl_bounded) simp_all
  have bs: "\<bar>sigma\<bar> \<le> 2 powi 100" unfolding sigma_def using b3 by (rule round_double_abs_le) simp
  have b4: "\<bar>z1 * sigma\<bar> \<le> 2 powi 200"
    unfolding p200 abs_mult using assms(3) bs by (intro mult_mono) simp_all
  then have e4: "fl (z1 * sigma) = Some p" unfolding p_def by (rule fl_bounded) simp_all
  have bp: "\<bar>p\<bar> \<le> 2 powi 200" unfolding p_def using b4 by (rule round_double_abs_le) simp
  have "(2::real) powi 101 \<le> 2 powi 200" by (intro power_int_increasing) simp_all
  with bmu bp have b5: "\<bar>mu + p\<bar> \<le> 2 powi 201" unfolding p201 by linarith
  then have e5: "fl (mu + p) = Some x" unfolding x_def by (rule fl_bounded) simp_all
  have bx: "\<bar>x\<bar> \<le> 2 powi 201" unfolding x_def using b5 by (rule round_double_abs_le) simp
  have "\<bar>of_int (round_half_even (x * 100)) / 100 :: real\<bar> \<le> (\<bar>x * 100\<bar> + 1 / 2) / 100"
    using round_half_even_abs_le [of "x * 100"] by (simp add: abs_divide divide_right_mono)
  also have "\<dots> \<le> \<bar>x\<bar> + 1" by (simp add: abs_mult)
  also have "\<dots> \<le> 2 powi 202" using bx one unfolding p202 by linarith
  finally have e6: "py_round2 x
      = Some (round_double (of_int (round_half_even (x * 100)) / 100))"
    unfolding py_round2_def by (rule fl_bounded) simp_all
  have b7: "\<bar>z2 * 100\<bar> \<le> 2 powi 107"
    unfolding p107 using assms(4) by (simp add: abs_mult)
  then have e7: "normalvariate 0 100 z2 = Some q"
    unfolding normalvariate_zero_mean q_def by (rule fl_bounded) simp_all
  have nv: "normalvariate mu sigma z1 = Some x"
    by (simp add: normalvariate_def e4 e5)
  show ?thesis
  proof (cases "u2 > 0.5")
    case True
    with e1 e2 e3 nv e6 e7 show ?thesis
      by (simp add: orders_step_def OVERLAP_def d_def Let_def)
  next
    case False
    with e1 e2 e3 nv e6 e7 show ?thesis
      by (simp add: orders_step_def OVERLAP_def d_def Let_def)
  qed
qed

text \<open>
  C9, amended. For every market tick consumed by \<^verbatim>\<open>orders\<close>, the side is a sell with
  \<open>d = 2\<close> or a buy with \<open>d = -2\<close>, and the limit price of the emitted order is
  \<^verbatim>\<open>round(x, 2)\<close> of the normal draw \<open>x = (price + spread/d) + z * (spread/OVERLAP)\<close>,
  with \<open>OVERLAP = 4\<close> and \<open>z\<close> the standard normal variate that \<^verbatim>\<open>normalvariate\<close>
  draws, every operation rounded to the nearest double: the price depends on the draw
  and is not a function of price, spread and side. The size is the floor of the
  absolute value of the draw \<open>z * 100\<close> from Normal(0, 100), rounded likewise, and is
  not negative.
\<close>

theorem orders_step_price_size:
  assumes "orders_step (t, px, spd) (u1, u2, z1, z2) = Some r"
  shows "row_side r = (if u2 > 1 / 2 then ''sell'' else ''buy'')
         \<and> row_price r
             = round_double (of_int (round_half_even
                 (round_double (round_double (px + round_double (spd / side_divisor (row_side r)))
                    + round_double (z1 * round_double (spd / 4))) * 100)) / 100)
         \<and> row_size r = \<lfloor>\<bar>round_double (z2 * 100)\<bar>\<rfloor>
         \<and> 0 \<le> row_size r"
proof -
  define d :: real where "d = (if u2 > 1 / 2 then 2 else - 2)"
  from assms obtain half mu sigma x order y where
    half: "fl (spd / d) = Some half" and mu: "fl (px + half) = Some mu"
    and sigma: "fl (spd / 4) = Some sigma" and x: "normalvariate mu sigma z1 = Some x"
    and order: "py_round2 x = Some order" and y: "normalvariate 0 100 z2 = Some y"
    and r: "r = (t, if u1 > 1 / 2 then ''ABC'' else ''DEF'',
                 if u2 > 1 / 2 then ''sell'' else ''buy'', order, py_int \<bar>y\<bar>)"
    by (auto simp: orders_step_def OVERLAP_def d_def Let_def split: bind_splits if_splits)
  from x obtain p where p: "fl (z1 * sigma) = Some p" and xp: "fl (mu + p) = Some x"
    by (auto simp: normalvariate_def split: bind_splits)
  have side: "row_side r = (if u2 > 1 / 2 then ''sell'' else ''buy'')"
    by (simp add: r row_side_def)
  have dv: "side_divisor (row_side r) = d"
    by (simp add: side d_def side_divisor_def)
  have "order = round_double (of_int (round_half_even (x * 100)) / 100)"
    using fl_SomeD [OF order [unfolded py_round2_def]] by simp
  moreover have "x = round_double (round_double (px + round_double (spd / d))
                    + round_double (z1 * round_double (spd / 4)))"
    using fl_SomeD [OF half] fl_SomeD [OF mu] fl_SomeD [OF sigma] fl_SomeD [OF p]
      fl_SomeD [OF xp] by simp
  ultimately have price: "row_price r
      = round_double (of_int (round_half_even
          (round_double (round_double (px + round_double (spd / side_divisor (row_side r)))
             + round_double (z1 * round_double (spd / 4))) * 100)) / 100)"
    unfolding dv by (simp add: r row_price_def)
  have "y = round_double (z2 * 100)"
    using y fl_SomeD [of "z2 * 100" y] by (simp add: normalvariate_zero_mean)
  then have size: "row_size r = \<lfloor>\<bar>round_double (z2 * 100)\<bar>\<rfloor>"
    by (simp add: r row_size_def py_int_def)
  from side price size show ?thesis by simp
qed

text \<open>
  C9, as stated. For the tick with price 100 and spread 4 and a sell, the claim gives
  the limit price \<open>round(100 + 4/2, 2) = 102\<close>; the order emitted has the price 103 when
  the variate drawn is 1, and 101 when it is -1.
\<close>

theorem orders_step_price_counterexample:
  "orders_step (0, 100, 4) (7 / 10, 7 / 10, 1, 1 / 2) = Some (0, ''ABC'', ''sell'', 103, 50)
   \<and> fl (100 + 4 / 2) = Some 102 \<and> py_round2 102 = Some 102
   \<and> orders_step (0, 100, 4) (7 / 10, 7 / 10, - 1, 1 / 2) = Some (0, ''ABC'', ''sell'', 101, 50)"
proof -
  note vals = fl_of_int(1) [of 2, simplified] fl_of_int(1) [of 102, simplified]
    fl_of_int(1) [of 1, simplified] fl_of_int(1) [of 103, simplified]
    fl_of_int(1) [of 50, simplified] fl_of_int(1) [of "- 1", simplified]
    fl_of_int(1) [of 101, simplified]
  show ?thesis
    by (simp add: orders_step_def normalvariate_def OVERLAP_def py_int_def py_round2_def
        round_half_even_def vals)
qed

theorem orders_step_price_size_witness:
  "round_double (33 / 10) = 3715469692580659 / 2 ^ 50
   \<and> round_double (35 / 100) = 3152519739159347 / 2 ^ 53
   \<and> round_double (5917 / 100) = 4163718592992379 / 2 ^ 46
   \<and> orders_step (0, 60, 3715469692580659 / 2 ^ 50)
        (7 / 10, 7 / 10, - 3, 3152519739159347 / 2 ^ 53)
       = Some (0, ''ABC'', ''sell'', 4163718592992379 / 2 ^ 46, 35)"
proof -
  define S :: real where "S = 3715469692580659 / 2 ^ 50"
  define Z :: real where "Z = 3152519739159347 / 2 ^ 53"
  define H :: real where "H = 3715469692580659 / 2 ^ 51"
  define MU :: real where "MU = 8676466157105971 / 2 ^ 47"
  define SG :: real where "SG = 3715469692580659 / 2 ^ 52"
  define P :: real where "P = - (1393301134717747 / 2 ^ 49)"
  define X :: real where "X = 4164070436713267 / 2 ^ 46"
  define PR :: real where "PR = 4163718592992379 / 2 ^ 46"
  have s: "round_double (33 / 10) = S"
    unfolding S_def
    by (rule round_double_value [where e = 1 and n = 7430939385161318, THEN trans])
      (simp_all add: round_half_even_def)
  have z: "round_double (35 / 100) = Z"
    unfolding Z_def
    by (rule round_double_value [where e = "- 2" and n = 6305039478318694, THEN trans])
      (simp_all add: round_half_even_def)
  have o: "round_double (5917 / 100) = PR"
    unfolding PR_def
    by (rule round_double_value [where e = 5 and n = 8327437185984758, THEN trans])
      (simp_all add: round_half_even_def)
  have half: "fl (S / 2) = Some H"
    unfolding S_def H_def
    by (rule fl_exact [where n = 3715469692580659 and k = "- 51", THEN trans]) simp_all
  have mu: "fl (60 + H) = Some MU"
    unfolding H_def MU_def
    by (rule fl_value [where e = 5 and n = 8676466157105971, THEN trans])
      (simp_all add: round_half_even_def)
  have sigma: "fl (S / 4) = Some SG"
    unfolding S_def SG_def
    by (rule fl_exact [where n = 3715469692580659 and k = "- 52", THEN trans]) simp_all
  have p: "fl (- 3 * SG) = Some P"
    unfolding SG_def P_def
    by (rule fl_value [where e = 1 and n = "- 5573204538870988", THEN trans])
      (simp_all add: round_half_even_def)
  have x: "fl (MU + P) = Some X"
    unfolding MU_def P_def X_def
    by (rule fl_value [where e = 5 and n = 8328140873426534, THEN trans])
      (simp_all add: round_half_even_def)
  have nv: "normalvariate MU SG (- 3) = Some X"
    by (simp only: normalvariate_def p x bind.bind_lunit)
  have rd: "round_half_even (X * 100) = 5917"
    by (simp add: X_def round_half_even_def)
  have order: "py_round2 X = Some PR"
    unfolding py_round2_def rd
    unfolding PR_def
    by (rule fl_value [where e = 5 and n = 8327437185984758, THEN trans])
      (simp_all add: round_half_even_def)
  have y: "normalvariate 0 100 Z = Some 35"
    unfolding normalvariate_zero_mean Z_def
    by (rule fl_value [where e = 5 and n = "35 * 2 ^ 47", THEN trans])
      (simp_all add: round_half_even_def)
  have run: "orders_step (0, 60, S) (7 / 10, 7 / 10, - 3, Z) = Some (0, ''ABC'', ''sell'', PR, 35)"
    by (simp add: orders_step_def OVERLAP_def half mu sigma nv order y py_int_def)
  from orders_step_price_size [OF run] run s z o show ?thesis
    unfolding S_def Z_def PR_def by simp
qed

end
